theory Spec2Isabelle
  imports Main "HOL-Library.Word" "HOL-Library.Char_ord" "HOL-Library.Sublist"
begin

section \<open>Bytes and white space\<close>

text \<open>
  A Go \<open>byte\<close> is an 8-bit value; so is an Isabelle \<open>char\<close>, and a \<open>[]byte\<close> is a
  \<open>char list\<close>. Byte literals of the source such as \<open>'{'\<close> are written \<open>CHR ''{''\<close>.
\<close>

type_synonym byte = char

text \<open>
  \<open>bytes.TrimSpace\<close> (Go standard library) removes leading and trailing white space
  "as defined by Unicode". For a byte below \<open>0x80\<close> that is the table \<open>asciiSpace\<close>;
  other bytes are decoded as UTF-8 and tested with \<open>unicode.IsSpace\<close>. A decoded rune is
  white space exactly when the bytes are the (unique, shortest-form) encoding of one of the
  code points U+0085, U+00A0, U+1680, U+2000..U+200A, U+2028, U+2029, U+202F, U+205F,
  U+3000; any other byte sequence decodes to a rune that is not white space.
\<close>

definition asciiSpace :: "byte \<Rightarrow> bool" where
  "asciiSpace c \<longleftrightarrow>
     c = CHR 0x09 \<or> c = CHR 0x0A \<or> c = CHR 0x0B \<or> c = CHR 0x0C \<or> c = CHR 0x0D \<or> c = CHR 0x20"

definition unicodeSpaces :: "byte list list" where
  "unicodeSpaces =
     [[CHR 0xC2, CHR 0x85], [CHR 0xC2, CHR 0xA0], [CHR 0xE1, CHR 0x9A, CHR 0x80]] @
     map (\<lambda>c. [CHR 0xE2, CHR 0x80, c])
       [CHR 0x80, CHR 0x81, CHR 0x82, CHR 0x83, CHR 0x84, CHR 0x85, CHR 0x86, CHR 0x87,
        CHR 0x88, CHR 0x89, CHR 0x8A, CHR 0xA8, CHR 0xA9, CHR 0xAF] @
     [[CHR 0xE2, CHR 0x81, CHR 0x9F], [CHR 0xE3, CHR 0x80, CHR 0x80]]"

text \<open>The input without its first rune, when that rune is white space.\<close>

definition leadingSpace :: "byte list \<Rightarrow> byte list option" where
  "leadingSpace s =
     (case s of
        [] \<Rightarrow> None
      | c # cs \<Rightarrow>
          if asciiSpace c then Some cs
          else map_option (\<lambda>e. drop (length e) s)
                 (find (\<lambda>e. take (length e) s = e) unicodeSpaces))"

text \<open>The input without its last rune, when that rune is white space.\<close>

definition trailingSpace :: "byte list \<Rightarrow> byte list option" where
  "trailingSpace s =
     (if s = [] then None
      else if asciiSpace (last s) then Some (butlast s)
      else map_option (\<lambda>e. take (length s - length e) s)
             (find (\<lambda>e. length e \<le> length s \<and> drop (length s - length e) s = e)
                unicodeSpaces))"

lemma leadingSpace_shorter: "leadingSpace s = Some r \<Longrightarrow> length r < length s"
  by (cases s) (auto simp: leadingSpace_def unicodeSpaces_def split: if_splits)

lemma trailingSpace_shorter: "trailingSpace s = Some r \<Longrightarrow> length r < length s"
  by (auto simp: trailingSpace_def unicodeSpaces_def split: if_splits)

function trimLeft :: "byte list \<Rightarrow> byte list" where
  "trimLeft s = (case leadingSpace s of None \<Rightarrow> s | Some r \<Rightarrow> trimLeft r)"
  by pat_completeness auto
termination
  by (relation "measure length") (auto simp: leadingSpace_shorter)

function trimRight :: "byte list \<Rightarrow> byte list" where
  "trimRight s = (case trailingSpace s of None \<Rightarrow> s | Some r \<Rightarrow> trimRight r)"
  by pat_completeness auto
termination
  by (relation "measure length") (auto simp: trailingSpace_shorter)

declare trimLeft.simps [simp del] trimRight.simps [simp del]

definition TrimSpace :: "byte list \<Rightarrow> byte list" where
  "TrimSpace s = trimRight (trimLeft s)"

section \<open>The JSON scanner of \<open>encoding/json\<close>\<close>

text \<open>
  \<open>json.Decoder\<close> (Go standard library) finds the end of the next top-level value with a
  byte-at-a-time state machine (\<open>scanner.go\<close>). The scanner's \<open>step\<close> field is a function
  pointer; here it is a constructor naming the function, and \<open>scan_step\<close> dispatches on it.
  \<open>parseState\<close> is the stack of open composites, its top at the head of the list.
\<close>

datatype scancode =
    scanContinue | scanBeginLiteral | scanBeginObject | scanObjectKey | scanObjectValue
  | scanEndObject | scanBeginArray | scanArrayValue | scanEndArray | scanSkipSpace
  | scanEnd | scanError

datatype parse = parseObjectKey | parseObjectValue | parseArrayValue

datatype stepfn =
    stateBeginValue | stateBeginValueOrEmpty | stateBeginStringOrEmpty | stateBeginString
  | stateEndValue | stateEndTop
  | stateInString | stateInStringEsc | stateInStringEscU | stateInStringEscU1
  | stateInStringEscU12 | stateInStringEscU123
  | stateNeg | state1 | state0 | stateDot | stateDot0 | stateE | stateESign | stateE0
  | stateT | stateTr | stateTru | stateF | stateFa | stateFal | stateFals
  | stateN | stateNu | stateNul
  | stateError

record scanner =
  step :: stepfn
  endTop :: bool
  parseState :: "parse list"
  err :: bool

definition maxNestingDepth :: nat where
  "maxNestingDepth = 10000"

definition reset :: scanner where
  "reset = \<lparr>step = stateBeginValue, endTop = False, parseState = [], err = False\<rparr>"

definition isSpace :: "byte \<Rightarrow> bool" where
  "isSpace c \<longleftrightarrow> c = CHR '' '' \<or> c = CHR 0x09 \<or> c = CHR 0x0D \<or> c = CHR 0x0A"

definition isDigit :: "byte \<Rightarrow> bool" where
  "isDigit c \<longleftrightarrow> CHR ''0'' \<le> c \<and> c \<le> CHR ''9''"

definition isDigit19 :: "byte \<Rightarrow> bool" where
  "isDigit19 c \<longleftrightarrow> CHR ''1'' \<le> c \<and> c \<le> CHR ''9''"

definition isHex :: "byte \<Rightarrow> bool" where
  "isHex c \<longleftrightarrow> CHR ''0'' \<le> c \<and> c \<le> CHR ''9'' \<or> CHR ''a'' \<le> c \<and> c \<le> CHR ''f''
     \<or> CHR ''A'' \<le> c \<and> c \<le> CHR ''F''"

definition scan_error :: "scanner \<Rightarrow> scancode \<times> scanner" where
  "scan_error s = (scanError, s\<lparr>step := stateError, err := True\<rparr>)"

definition continue :: "scanner \<Rightarrow> stepfn \<Rightarrow> scancode \<times> scanner" where
  "continue s f = (scanContinue, s\<lparr>step := f\<rparr>)"

definition pushParseState :: "scanner \<Rightarrow> parse \<Rightarrow> scancode \<Rightarrow> scancode \<times> scanner" where
  "pushParseState s newParseState successState =
     (let s' = s\<lparr>parseState := newParseState # parseState s\<rparr>
      in if length (parseState s') \<le> maxNestingDepth then (successState, s')
         else scan_error s')"

definition popParseState :: "scanner \<Rightarrow> scanner" where
  "popParseState s =
     (let ps = tl (parseState s)
      in if ps = [] then s\<lparr>parseState := ps, step := stateEndTop, endTop := True\<rparr>
         else s\<lparr>parseState := ps, step := stateEndValue\<rparr>)"

definition stateEndTop_f :: "scanner \<Rightarrow> byte \<Rightarrow> scancode \<times> scanner" where
  "stateEndTop_f s c =
     (if \<not> isSpace c then (scanEnd, snd (scan_error s)) else (scanEnd, s))"

definition stateEndValue_f :: "scanner \<Rightarrow> byte \<Rightarrow> scancode \<times> scanner" where
  "stateEndValue_f s c =
     (case parseState s of
        [] \<Rightarrow> stateEndTop_f (s\<lparr>step := stateEndTop, endTop := True\<rparr>) c
      | ps # rest \<Rightarrow>
          if isSpace c then (scanSkipSpace, s\<lparr>step := stateEndValue\<rparr>)
          else (case ps of
              parseObjectKey \<Rightarrow>
                if c = CHR '':'' then
                  (scanObjectKey, s\<lparr>parseState := parseObjectValue # rest, step := stateBeginValue\<rparr>)
                else scan_error s
            | parseObjectValue \<Rightarrow>
                if c = CHR '','' then
                  (scanObjectValue, s\<lparr>parseState := parseObjectKey # rest, step := stateBeginString\<rparr>)
                else if c = CHR ''}'' then (scanEndObject, popParseState s)
                else scan_error s
            | parseArrayValue \<Rightarrow>
                if c = CHR '','' then (scanArrayValue, s\<lparr>step := stateBeginValue\<rparr>)
                else if c = CHR '']'' then (scanEndArray, popParseState s)
                else scan_error s))"

definition stateBeginValue_f :: "scanner \<Rightarrow> byte \<Rightarrow> scancode \<times> scanner" where
  "stateBeginValue_f s c =
     (if isSpace c then (scanSkipSpace, s)
      else if c = CHR ''{'' then
        pushParseState (s\<lparr>step := stateBeginStringOrEmpty\<rparr>) parseObjectKey scanBeginObject
      else if c = CHR ''['' then
        pushParseState (s\<lparr>step := stateBeginValueOrEmpty\<rparr>) parseArrayValue scanBeginArray
      else if c = CHR 0x22 then (scanBeginLiteral, s\<lparr>step := stateInString\<rparr>)
      else if c = CHR ''-'' then (scanBeginLiteral, s\<lparr>step := stateNeg\<rparr>)
      else if c = CHR ''0'' then (scanBeginLiteral, s\<lparr>step := state0\<rparr>)
      else if c = CHR ''t'' then (scanBeginLiteral, s\<lparr>step := stateT\<rparr>)
      else if c = CHR ''f'' then (scanBeginLiteral, s\<lparr>step := stateF\<rparr>)
      else if c = CHR ''n'' then (scanBeginLiteral, s\<lparr>step := stateN\<rparr>)
      else if isDigit19 c then (scanBeginLiteral, s\<lparr>step := state1\<rparr>)
      else scan_error s)"

definition stateBeginValueOrEmpty_f :: "scanner \<Rightarrow> byte \<Rightarrow> scancode \<times> scanner" where
  "stateBeginValueOrEmpty_f s c =
     (if isSpace c then (scanSkipSpace, s)
      else if c = CHR '']'' then stateEndValue_f s c
      else stateBeginValue_f s c)"

definition stateBeginString_f :: "scanner \<Rightarrow> byte \<Rightarrow> scancode \<times> scanner" where
  "stateBeginString_f s c =
     (if isSpace c then (scanSkipSpace, s)
      else if c = CHR 0x22 then (scanBeginLiteral, s\<lparr>step := stateInString\<rparr>)
      else scan_error s)"

definition stateBeginStringOrEmpty_f :: "scanner \<Rightarrow> byte \<Rightarrow> scancode \<times> scanner" where
  "stateBeginStringOrEmpty_f s c =
     (if isSpace c then (scanSkipSpace, s)
      else if c = CHR ''}'' then
        stateEndValue_f (s\<lparr>parseState := parseObjectValue # tl (parseState s)\<rparr>) c
      else stateBeginString_f s c)"

definition stateInString_f :: "scanner \<Rightarrow> byte \<Rightarrow> scancode \<times> scanner" where
  "stateInString_f s c =
     (if c = CHR 0x22 then continue s stateEndValue
      else if c = CHR 0x5C then continue s stateInStringEsc
      else if c < CHR 0x20 then scan_error s
      else (scanContinue, s))"

definition stateInStringEsc_f :: "scanner \<Rightarrow> byte \<Rightarrow> scancode \<times> scanner" where
  "stateInStringEsc_f s c =
     (if c = CHR ''b'' \<or> c = CHR ''f'' \<or> c = CHR ''n'' \<or> c = CHR ''r'' \<or> c = CHR ''t''
         \<or> c = CHR 0x5C \<or> c = CHR ''/'' \<or> c = CHR 0x22
      then continue s stateInString
      else if c = CHR ''u'' then continue s stateInStringEscU
      else scan_error s)"

definition stateNeg_f :: "scanner \<Rightarrow> byte \<Rightarrow> scancode \<times> scanner" where
  "stateNeg_f s c =
     (if c = CHR ''0'' then continue s state0
      else if isDigit19 c then continue s state1
      else scan_error s)"

definition state0_f :: "scanner \<Rightarrow> byte \<Rightarrow> scancode \<times> scanner" where
  "state0_f s c =
     (if c = CHR ''.'' then continue s stateDot
      else if c = CHR ''e'' \<or> c = CHR ''E'' then continue s stateE
      else stateEndValue_f s c)"

definition state1_f :: "scanner \<Rightarrow> byte \<Rightarrow> scancode \<times> scanner" where
  "state1_f s c = (if isDigit c then continue s state1 else state0_f s c)"

definition stateDot_f :: "scanner \<Rightarrow> byte \<Rightarrow> scancode \<times> scanner" where
  "stateDot_f s c = (if isDigit c then continue s stateDot0 else scan_error s)"

definition stateDot0_f :: "scanner \<Rightarrow> byte \<Rightarrow> scancode \<times> scanner" where
  "stateDot0_f s c =
     (if isDigit c then (scanContinue, s)
      else if c = CHR ''e'' \<or> c = CHR ''E'' then continue s stateE
      else stateEndValue_f s c)"

definition stateESign_f :: "scanner \<Rightarrow> byte \<Rightarrow> scancode \<times> scanner" where
  "stateESign_f s c = (if isDigit c then continue s stateE0 else scan_error s)"

definition stateE_f :: "scanner \<Rightarrow> byte \<Rightarrow> scancode \<times> scanner" where
  "stateE_f s c =
     (if c = CHR ''+'' \<or> c = CHR ''-'' then continue s stateESign else stateESign_f s c)"

definition stateE0_f :: "scanner \<Rightarrow> byte \<Rightarrow> scancode \<times> scanner" where
  "stateE0_f s c = (if isDigit c then (scanContinue, s) else stateEndValue_f s c)"

text \<open>
  The states inside \<open>\u\<close> escapes and inside the literals \<open>true\<close>, \<open>false\<close>, \<open>null\<close>
  all have one shape: the expected byte moves on, any other byte is an error.
\<close>

definition expectHex :: "scanner \<Rightarrow> byte \<Rightarrow> stepfn \<Rightarrow> scancode \<times> scanner" where
  "expectHex s c f = (if isHex c then continue s f else scan_error s)"

definition expect :: "scanner \<Rightarrow> byte \<Rightarrow> byte \<Rightarrow> stepfn \<Rightarrow> scancode \<times> scanner" where
  "expect s c want f = (if c = want then continue s f else scan_error s)"

definition scan_step :: "scanner \<Rightarrow> byte \<Rightarrow> scancode \<times> scanner" where
  "scan_step s c =
     (case step s of
        stateBeginValue \<Rightarrow> stateBeginValue_f s c
      | stateBeginValueOrEmpty \<Rightarrow> stateBeginValueOrEmpty_f s c
      | stateBeginStringOrEmpty \<Rightarrow> stateBeginStringOrEmpty_f s c
      | stateBeginString \<Rightarrow> stateBeginString_f s c
      | stateEndValue \<Rightarrow> stateEndValue_f s c
      | stateEndTop \<Rightarrow> stateEndTop_f s c
      | stateInString \<Rightarrow> stateInString_f s c
      | stateInStringEsc \<Rightarrow> stateInStringEsc_f s c
      | stateInStringEscU \<Rightarrow> expectHex s c stateInStringEscU1
      | stateInStringEscU1 \<Rightarrow> expectHex s c stateInStringEscU12
      | stateInStringEscU12 \<Rightarrow> expectHex s c stateInStringEscU123
      | stateInStringEscU123 \<Rightarrow> expectHex s c stateInString
      | stateNeg \<Rightarrow> stateNeg_f s c
      | state1 \<Rightarrow> state1_f s c
      | state0 \<Rightarrow> state0_f s c
      | stateDot \<Rightarrow> stateDot_f s c
      | stateDot0 \<Rightarrow> stateDot0_f s c
      | stateE \<Rightarrow> stateE_f s c
      | stateESign \<Rightarrow> stateESign_f s c
      | stateE0 \<Rightarrow> stateE0_f s c
      | stateT \<Rightarrow> expect s c (CHR ''r'') stateTr
      | stateTr \<Rightarrow> expect s c (CHR ''u'') stateTru
      | stateTru \<Rightarrow> expect s c (CHR ''e'') stateEndValue
      | stateF \<Rightarrow> expect s c (CHR ''a'') stateFa
      | stateFa \<Rightarrow> expect s c (CHR ''l'') stateFal
      | stateFal \<Rightarrow> expect s c (CHR ''s'') stateFals
      | stateFals \<Rightarrow> expect s c (CHR ''e'') stateEndValue
      | stateN \<Rightarrow> expect s c (CHR ''u'') stateNu
      | stateNu \<Rightarrow> expect s c (CHR ''l'') stateNul
      | stateNul \<Rightarrow> expect s c (CHR ''l'') stateEndValue
      | stateError \<Rightarrow> (scanError, s))"


section \<open>The streaming decoder\<close>

text \<open>
  \<open>Decoder.readValue\<close> runs the scanner over the unread input until a top-level value
  ends. A value that ends in \<open>}\<close> or \<open>]\<close> is complete at that byte; any other value is
  complete at the first byte after it, or at the end of the input. The counter is the
  number of bytes of the value, leading white space included.
\<close>

datatype scan_result = Complete nat | Failed | AtEOF

fun scanValue :: "scanner \<Rightarrow> byte list \<Rightarrow> nat \<Rightarrow> scan_result" where
  "scanValue s [] n = (if fst (scan_step s (CHR '' '')) = scanEnd then Complete n else AtEOF)"
| "scanValue s (c # cs) n =
     (case scan_step s c of
        (code, s') \<Rightarrow>
          if code = scanEnd then Complete n
          else if (code = scanEndObject \<or> code = scanEndArray)
                  \<and> fst (stateEndValue_f s' (CHR '' '')) = scanEnd then Complete (n + 1)
          else if code = scanError then Failed
          else scanValue s' cs (n + 1))"

datatype json_error = SyntaxError | EOF | ErrUnexpectedEOF

text \<open>
  The decoder reads from a \<open>bytes.Reader\<close> over a fixed byte slice. Its internal buffer,
  refilled from the reader, only caches that slice, so the decoder is the slice, the
  number of bytes consumed so far (\<open>InputOffset\<close>) and the sticky error \<open>dec.err\<close>.
\<close>

record Decoder =
  input :: "byte list"
  offset :: nat
  derr :: "json_error option"

definition NewDecoder :: "byte list \<Rightarrow> Decoder" where
  "NewDecoder data = \<lparr>input = data, offset = 0, derr = None\<rparr>"

definition InputOffset :: "Decoder \<Rightarrow> nat" where
  "InputOffset dec = offset dec"

definition nonSpace :: "byte list \<Rightarrow> bool" where
  "nonSpace b \<longleftrightarrow> list_ex (\<lambda>c. \<not> isSpace c) b"

text \<open>
  \<open>Decode\<close> into a \<open>json.RawMessage\<close>: the message is a copy of the bytes of the value,
  from its first byte after the leading white space to its last byte.
\<close>

definition Decode :: "Decoder \<Rightarrow> (json_error + byte list) \<times> Decoder" where
  "Decode dec =
     (case derr dec of
        Some e \<Rightarrow> (Inl e, dec)
      | None \<Rightarrow>
          (let rest = drop (offset dec) (input dec)
           in case scanValue reset rest 0 of
                Complete n \<Rightarrow>
                  (Inr (dropWhile isSpace (take n rest)), dec\<lparr>offset := offset dec + n\<rparr>)
              | Failed \<Rightarrow> (Inl SyntaxError, dec\<lparr>derr := Some SyntaxError\<rparr>)
              | AtEOF \<Rightarrow>
                  (let e = (if nonSpace rest then ErrUnexpectedEOF else EOF)
                   in (Inl e, dec\<lparr>derr := Some e\<rparr>))))"

section \<open>Events\<close>

text \<open>
  Modelled from the spec: the package \<open>event\<close> (the event types, \<open>EventHeader\<close>,
  \<open>FSDataEvent\<close> with its method \<open>Buffer\<close>, and \<open>FSJsonEvent\<close>) is not among the source
  files. The fields are the ones the session manager and its tests use; \<open>Buffer\<close> is the
  first \<open>BufSize\<close> (captured length) bytes of the fixed-capacity array \<open>Buf\<close>.
\<close>

datatype EventType =
  EventTypeFSRead | EventTypeFSWrite | EventTypeFSJsonRead | EventTypeFSJsonWrite

record EventHeader =
  EventType :: EventType
  PID :: "32 word"
  CommBytes :: "byte list"

record FSDataEvent = EventHeader +
  Size :: "32 word"
  BufSize :: "32 word"
  FilePtr :: "64 word"
  Buf :: "byte list"

definition Buffer :: "FSDataEvent \<Rightarrow> byte list" where
  "Buffer e = take (unat (BufSize e)) (Buf e)"

record FSJsonEvent = EventHeader +
  FilePtr :: "64 word"
  Payload :: "byte list"

section \<open>The session manager\<close>

record sessionKey =
  pid :: "32 word"
  filePtr :: "64 word"
  origEventType :: EventType

text \<open>A \<open>bytes.Buffer\<close> is its unread bytes.\<close>

record session =
  pid :: "32 word"
  comm :: "byte list"
  filePtr :: "64 word"
  buf :: "byte list"

text \<open>
  \<open>eventCh\<close> is a buffered channel of capacity 100: the events sent and not yet received,
  oldest first.
\<close>

record SessionManager =
  sessions :: "sessionKey \<rightharpoonup> session"
  eventCh :: "FSJsonEvent list"

definition eventChCap :: nat where
  "eventChCap = 100"

definition NewSessionManager :: SessionManager where
  "NewSessionManager = \<lparr>sessions = Map.empty, eventCh = []\<rparr>"

datatype error = InvalidStart byte | ChannelFull

definition emitJsonEvent ::
  "SessionManager \<Rightarrow> session \<Rightarrow> sessionKey \<Rightarrow> byte list \<Rightarrow> error option \<times> SessionManager" where
  "emitJsonEvent s sess key payload =
     (let newEventType =
            (if origEventType key = EventTypeFSWrite then EventTypeFSJsonWrite
             else EventTypeFSJsonRead);
          event = \<lparr>EventType = newEventType, PID = session.pid sess, CommBytes = comm sess,
                   FilePtr = session.filePtr sess, Payload = payload\<rparr>
      in if length (eventCh s) < eventChCap then (None, s\<lparr>eventCh := eventCh s @ [event]\<rparr>)
         else (Some ChannelFull, s))"


text \<open>
  The loop of \<open>tryEmitJsonEvent\<close> decodes value after value. It ends because every
  successful \<open>Decode\<close> consumes at least one byte of a finite input.
\<close>

lemma scanValue_bounds:
  "scanValue s cs n = Complete m \<Longrightarrow> n \<le> m \<and> m \<le> n + length cs"
proof (induction cs arbitrary: s n)
  case Nil
  then show ?case by (simp split: if_splits)
next
  case (Cons c cs)
  obtain code s' where st: "scan_step s c = (code, s')" by (cases "scan_step s c")
  show ?case
  proof (cases "scanValue s' cs (n + 1) = Complete m")
    case True
    from Cons.IH [OF True] show ?thesis by simp
  next
    case False
    with Cons.prems st show ?thesis by (simp split: if_splits)
  qed
qed

lemma scan_step_reset:
  "fst (scan_step reset c) \<noteq> scanEnd \<and> fst (scan_step reset c) \<noteq> scanEndObject
   \<and> fst (scan_step reset c) \<noteq> scanEndArray"
  by (simp add: scan_step_def reset_def stateBeginValue_f_def pushParseState_def
      scan_error_def Let_def)

lemma scanValue_reset_pos:
  assumes "scanValue reset cs 0 = Complete m"
  shows "0 < m"
proof (cases cs)
  case Nil
  with assms scan_step_reset [of "CHR '' ''"] show ?thesis by simp
next
  case (Cons c cs')
  obtain code s' where st: "scan_step reset c = (code, s')" by (cases "scan_step reset c")
  with scan_step_reset [of c] have
    "code \<noteq> scanEnd" "code \<noteq> scanEndObject" "code \<noteq> scanEndArray" by simp_all
  with assms Cons st have "scanValue s' cs' 1 = Complete m" by (simp split: if_splits)
  then show ?thesis using scanValue_bounds by fastforce
qed

lemma Decode_progress:
  assumes "Decode dec = (Inr m, dec')"
  shows "input dec' = input dec" and "offset dec < offset dec'"
    and "offset dec' \<le> length (input dec)"
proof -
  from assms obtain n where
    n: "scanValue reset (drop (offset dec) (input dec)) 0 = Complete n"
    and dec': "dec' = dec\<lparr>offset := offset dec + n\<rparr>"
    by (auto simp: Decode_def Let_def split: option.splits scan_result.splits)
  from n have "0 < n" by (rule scanValue_reset_pos)
  moreover from scanValue_bounds [OF n] have "n \<le> length (input dec) - offset dec" by simp
  ultimately show "input dec' = input dec" and "offset dec < offset dec'"
    and "offset dec' \<le> length (input dec)"
    using dec' by auto
qed

function emitLoop ::
  "SessionManager \<Rightarrow> session \<Rightarrow> sessionKey \<Rightarrow> Decoder \<Rightarrow> nat
     \<Rightarrow> error option \<times> SessionManager \<times> nat" where
  "emitLoop s sess key decoder lastGoodPosition =
     (case Decode decoder of
        (Inl e, decoder') \<Rightarrow> (None, s, lastGoodPosition)
      | (Inr jsonData, decoder') \<Rightarrow>
          if length (TrimSpace jsonData) = 0
          then emitLoop s sess key decoder' lastGoodPosition
          else (case emitJsonEvent s sess key jsonData of
                  (Some e, s') \<Rightarrow> (Some e, s', lastGoodPosition)
                | (None, s') \<Rightarrow> emitLoop s' sess key decoder' (InputOffset decoder')))"
  by pat_completeness auto
termination
proof (relation "measure (\<lambda>(s, sess, key, decoder, lastGoodPosition).
                    length (input decoder) - offset decoder)")
  show "wf (measure (\<lambda>(s, sess, key, decoder, lastGoodPosition).
                    length (input decoder) - offset decoder))"
    by simp
next
  fix s :: SessionManager and sess :: session and key :: sessionKey
    and decoder decoder' :: Decoder and lastGoodPosition :: nat
    and x :: "json_error + byte list" and jsonData :: "byte list"
  assume "(x, decoder') = Decode decoder" and "x = Inr jsonData"
  then have d: "Decode decoder = (Inr jsonData, decoder')" by simp
  from Decode_progress [OF d]
  show "((s, sess, key, decoder', lastGoodPosition), s, sess, key, decoder, lastGoodPosition)
        \<in> measure (\<lambda>(s, sess, key, decoder, lastGoodPosition).
                    length (input decoder) - offset decoder)"
    by simp
next
  fix s s' :: SessionManager and sess :: session and key :: sessionKey
    and decoder decoder' :: Decoder and lastGoodPosition :: nat
    and x :: "json_error + byte list" and jsonData :: "byte list"
    and y :: "error option \<times> SessionManager" and e :: "error option"
  assume "(x, decoder') = Decode decoder" and "x = Inr jsonData"
  then have d: "Decode decoder = (Inr jsonData, decoder')" by simp
  from Decode_progress [OF d]
  show "((s', sess, key, decoder', InputOffset decoder'), s, sess, key, decoder,
          lastGoodPosition)
        \<in> measure (\<lambda>(s, sess, key, decoder, lastGoodPosition).
                    length (input decoder) - offset decoder)"
    by simp
qed

declare emitLoop.simps [simp del]

text \<open>
  \<open>sess\<close> is a pointer to the session stored in the map: \<open>tryEmitJsonEvent\<close> returns the
  session as it has left it, and \<open>ProcessFSEvent\<close> stores it under the key, on every
  return path.
\<close>

definition tryEmitJsonEvent ::
  "SessionManager \<Rightarrow> session \<Rightarrow> sessionKey \<Rightarrow> error option \<times> SessionManager \<times> session" where
  "tryEmitJsonEvent s sess key =
     (let bufData = TrimSpace (buf sess)
      in if length bufData = 0 then (None, s, sess\<lparr>buf := []\<rparr>)
         else if hd bufData \<noteq> CHR ''{'' \<and> hd bufData \<noteq> CHR ''[''
         then (Some (InvalidStart (hd bufData)), s, sess)
         else (case emitLoop s sess key (NewDecoder bufData) 0 of
                 (Some e, s', lastGoodPosition) \<Rightarrow> (Some e, s', sess)
               | (None, s', lastGoodPosition) \<Rightarrow>
                   (None, s',
                    if lastGoodPosition > 0 then sess\<lparr>buf := drop lastGoodPosition bufData\<rparr>
                    else sess)))"

text \<open>\<open>bytes.Buffer.Write\<close> appends and always returns a nil error.\<close>

definition ProcessFSEvent :: "SessionManager \<Rightarrow> FSDataEvent \<Rightarrow> error option \<times> SessionManager" where
  "ProcessFSEvent s e =
     (let key = \<lparr>sessionKey.pid = PID e, sessionKey.filePtr = FSDataEvent.FilePtr e,
                 origEventType = EventType e\<rparr>;
          sess = (case sessions s key of
                    Some sess \<Rightarrow> sess
                  | None \<Rightarrow> \<lparr>session.pid = PID e, comm = CommBytes e,
                              session.filePtr = FSDataEvent.FilePtr e, buf = []\<rparr>);
          sess = sess\<lparr>buf := buf sess @ Buffer e\<rparr>
      in case tryEmitJsonEvent s sess key of
           (e', s', sess') \<Rightarrow> (e', s'\<lparr>sessions := (sessions s')(key \<mapsto> sess')\<rparr>))"



section \<open>Observations on the manager's state\<close>

text \<open>The key under which \<open>ProcessFSEvent\<close> files an event.\<close>

definition keyOf :: "FSDataEvent \<Rightarrow> sessionKey" where
  "keyOf e = \<lparr>sessionKey.pid = PID e, sessionKey.filePtr = FSDataEvent.FilePtr e,
              origEventType = EventType e\<rparr>"

text \<open>The session an event is processed in: the one stored under its key, else a new one.\<close>

definition sessionFor :: "SessionManager \<Rightarrow> FSDataEvent \<Rightarrow> session" where
  "sessionFor s e =
     (case sessions s (keyOf e) of
        Some sess \<Rightarrow> sess
      | None \<Rightarrow> \<lparr>session.pid = PID e, comm = CommBytes e,
                  session.filePtr = FSDataEvent.FilePtr e, buf = []\<rparr>)"

text \<open>The bytes buffered for a key; none when the key has no session.\<close>

definition bufferOf :: "SessionManager \<Rightarrow> sessionKey \<Rightarrow> byte list" where
  "bufferOf s key = (case sessions s key of None \<Rightarrow> [] | Some sess \<Rightarrow> buf sess)"

text \<open>The event \<open>emitJsonEvent\<close> builds for a payload.\<close>

definition jsonEvent :: "session \<Rightarrow> sessionKey \<Rightarrow> byte list \<Rightarrow> FSJsonEvent" where
  "jsonEvent sess key payload =
     \<lparr>EventType = (if origEventType key = EventTypeFSWrite then EventTypeFSJsonWrite
                    else EventTypeFSJsonRead),
      PID = session.pid sess, CommBytes = comm sess,
      FilePtr = session.filePtr sess, Payload = payload\<rparr>"

text \<open>The events a call has added to the channel.\<close>

definition emitted :: "SessionManager \<Rightarrow> SessionManager \<Rightarrow> FSJsonEvent list" where
  "emitted s s' = drop (length (eventCh s)) (eventCh s')"

text \<open>
  Concrete inputs, built as the repository's tests build them: an event of process 1234 on
  file handle \<open>0x5555\<close> whose captured bytes are \<open>d\<close>.
\<close>

definition dataEvent :: "EventType \<Rightarrow> byte list \<Rightarrow> byte list \<Rightarrow> FSDataEvent" where
  "dataEvent t name d =
     \<lparr>EventType = t, PID = 1234, CommBytes = name,
      Size = of_nat (length d), BufSize = of_nat (length d), FilePtr = 0x5555, Buf = d\<rparr>"

definition readEvent :: "byte list \<Rightarrow> FSDataEvent" where
  "readEvent d = dataEvent EventTypeFSRead ''mcp-server'' d"

definition writeEvent :: "byte list \<Rightarrow> FSDataEvent" where
  "writeEvent d = dataEvent EventTypeFSWrite ''mcp-server'' d"

text \<open>
  A manager whose channel holds \<open>n\<close> events that no consumer has received yet (each the
  completed value \<open>{}\<close> of another process), and no session.
\<close>

definition pendingEvent :: FSJsonEvent where
  "pendingEvent = \<lparr>EventType = EventTypeFSJsonRead, PID = 7, CommBytes = ''other'',
                    FilePtr = 0x77, Payload = ''{}''\<rparr>"

definition managerWithPending :: "nat \<Rightarrow> SessionManager" where
  "managerWithPending n = NewSessionManager\<lparr>eventCh := replicate n pendingEvent\<rparr>"

text \<open>The consumer of \<open>FSEvents()\<close> receives every event waiting in the channel.\<close>

definition receiveAll :: "SessionManager \<Rightarrow> SessionManager" where
  "receiveAll s = s\<lparr>eventCh := []\<rparr>"

section \<open>Complete values and batches\<close>

text \<open>
  To reason about a value inside a longer input, \<open>scanRun\<close> is the loop of \<open>scanValue\<close>
  without the test at the end of the input: it stops where a value ends or the scanner
  fails, and otherwise returns the scanner as the input leaves it. \<open>atEOF\<close> is the test
  the decoder makes there.
\<close>

datatype run_result = Ended nat | Broke | Open scanner nat

fun scanRun :: "scanner \<Rightarrow> byte list \<Rightarrow> nat \<Rightarrow> run_result" where
  "scanRun s [] n = Open s n"
| "scanRun s (c # cs) n =
     (case scan_step s c of
        (code, s') \<Rightarrow>
          if code = scanEnd then Ended n
          else if (code = scanEndObject \<or> code = scanEndArray)
                  \<and> fst (stateEndValue_f s' (CHR '' '')) = scanEnd then Ended (n + 1)
          else if code = scanError then Broke
          else scanRun s' cs (n + 1))"

definition atEOF :: "run_result \<Rightarrow> scan_result" where
  "atEOF r = (case r of
       Ended m \<Rightarrow> Complete m
     | Broke \<Rightarrow> Failed
     | Open s m \<Rightarrow> if fst (scan_step s (CHR '' '')) = scanEnd then Complete m else AtEOF)"

text \<open>The scanners in which a blank ends the top-level value.\<close>

definition endsAt :: "scanner \<Rightarrow> bool" where
  "endsAt s \<longleftrightarrow> step s = stateEndTop
     \<or> (parseState s = [] \<and> (step s = stateEndValue \<or> step s = state1 \<or> step s = state0
            \<or> step s = stateDot0 \<or> step s = stateE0))"

text \<open>An ASCII byte that \<open>TrimSpace\<close> keeps.\<close>

definition plain :: "byte \<Rightarrow> bool" where
  "plain c \<longleftrightarrow> \<not> asciiSpace c \<and> c < CHR 0x80"

text \<open>
  A complete top-level JSON value: a byte string that starts with no white space and that
  the decoder accepts, to its last byte, as one value. A composite is an object or an
  array.
\<close>

definition isValue :: "byte list \<Rightarrow> bool" where
  "isValue v \<longleftrightarrow> v \<noteq> [] \<and> \<not> isSpace (hd v) \<and> scanValue reset v 0 = Complete (length v)"

definition isComposite :: "byte list \<Rightarrow> bool" where
  "isComposite v \<longleftrightarrow> isValue v \<and> (hd v = CHR ''{'' \<or> hd v = CHR ''['')"

text \<open>JSON white space: blanks, tabs, carriage returns, line feeds.\<close>

definition allSpace :: "byte list \<Rightarrow> bool" where
  "allSpace w \<longleftrightarrow> (\<forall>c \<in> set w. isSpace c)"

text \<open>Inside a composite the scanner cannot end at the end of the input.\<close>

text \<open>A scanner inside an object or array.\<close>

definition inside :: "scanner \<Rightarrow> bool" where
  "inside s \<longleftrightarrow> parseState s \<noteq> [] \<and> step s \<noteq> stateEndTop"

text \<open>
  A batch is a list of values, each with the white space that precedes it. \<open>framed\<close>
  says that each value of the batch, followed by the rest and then by \<open>t\<close>, is delimited
  where it ends: by the end of the input, by white space, or by its own closing bracket.
\<close>

definition joinValues :: "(byte list \<times> byte list) list \<Rightarrow> byte list" where
  "joinValues items = concat (map (\<lambda>(w, v). w @ v) items)"

fun framed :: "(byte list \<times> byte list) list \<Rightarrow> byte list \<Rightarrow> bool" where
  "framed [] t = True"
| "framed ((w, v) # items) t =
     (allSpace w \<and> isValue v
      \<and> (joinValues items @ t = [] \<or> isSpace (hd (joinValues items @ t)) \<or> isComposite v)
      \<and> framed items t)"

text \<open>
  A stream of values: the values \<open>vs\<close>, in this order, each preceded by any JSON white
  space, and JSON white space at the end. \<open>pending\<close> is what is left of a byte string
  after the leading values of \<open>vs\<close> that it holds completely (the beginning of the next
  value, if any), and \<open>completed\<close> is the number of these values.
\<close>

fun stream :: "byte list list \<Rightarrow> byte list \<Rightarrow> bool" where
  "stream [] x = allSpace x"
| "stream (v # vs) x =
     (let x1 = dropWhile isSpace x
      in take (length v) x1 = v \<and> stream vs (drop (length v) x1))"

fun pending :: "byte list list \<Rightarrow> byte list \<Rightarrow> byte list" where
  "pending [] x = dropWhile isSpace x"
| "pending (v # vs) x =
     (let x1 = dropWhile isSpace x
      in if take (length v) x1 = v then pending vs (drop (length v) x1) else x1)"

text \<open>
  Successive calls of \<open>ProcessFSEvent\<close>, one for each event of a list: the results of
  the calls and the manager after the last.
\<close>

fun deliver :: "SessionManager \<Rightarrow> FSDataEvent list \<Rightarrow> error option list \<times> SessionManager" where
  "deliver s [] = ([], s)"
| "deliver s (e # es) =
     (case ProcessFSEvent s e of
        (r, s') \<Rightarrow> (case deliver s' es of (rs, s'') \<Rightarrow> (r # rs, s'')))"

fun completed :: "byte list list \<Rightarrow> byte list \<Rightarrow> nat" where
  "completed [] x = 0"
| "completed (v # vs) x =
     (let x1 = dropWhile isSpace x
      in if take (length v) x1 = v then Suc (completed vs (drop (length v) x1)) else 0)"

section \<open>Basic facts\<close>

lemma emitJsonEvent_cases:
  "emitJsonEvent s sess key payload =
     (if length (eventCh s) < eventChCap
      then (None, s\<lparr>eventCh := eventCh s @ [jsonEvent sess key payload]\<rparr>)
      else (Some ChannelFull, s))"
  by (simp add: emitJsonEvent_def jsonEvent_def Let_def)

lemma TrimSpace_Nil: "TrimSpace [] = []"
  by (simp add: TrimSpace_def trimLeft.simps trimRight.simps leadingSpace_def
      trailingSpace_def)

lemma ProcessFSEvent_alt:
  "ProcessFSEvent s e =
     (case tryEmitJsonEvent s ((sessionFor s e)\<lparr>buf := bufferOf s (keyOf e) @ Buffer e\<rparr>)
             (keyOf e) of
        (e', s', sess') \<Rightarrow> (e', s'\<lparr>sessions := (sessions s')(keyOf e \<mapsto> sess')\<rparr>))"
  by (simp add: ProcessFSEvent_def keyOf_def sessionFor_def bufferOf_def Let_def
      split: option.splits)

text \<open>
  The loop leaves the sessions alone and only appends events to the channel, each built
  from the session and key it was given, none with an empty payload.
\<close>

lemma emitLoop_events:
  "emitLoop s sess key dec lg = (r, s', lg') \<Longrightarrow>
   sessions s' = sessions s \<and>
   (\<exists>ps. eventCh s' = eventCh s @ map (jsonEvent sess key) ps \<and> [] \<notin> set ps)"
proof (induction s sess key dec lg rule: emitLoop.induct)
  case (1 s sess key decoder lastGoodPosition)
  obtain x decoder' where d: "Decode decoder = (x, decoder')" by (cases "Decode decoder")
  show ?case
  proof (cases x)
    case (Inl e)
    with "1.prems" d show ?thesis by (simp add: emitLoop.simps [of s])
  next
    case (Inr jsonData)
    show ?thesis
    proof (cases "length (TrimSpace jsonData) = 0")
      case True
      with "1.prems" d Inr have "emitLoop s sess key decoder' lastGoodPosition = (r, s', lg')"
        by (simp add: emitLoop.simps [of s])
      with "1.IH"(1) [OF d [symmetric] Inr True] show ?thesis by simp
    next
      case False
      then have ne: "jsonData \<noteq> []" using TrimSpace_Nil by auto
      show ?thesis
      proof (cases "length (eventCh s) < eventChCap")
        case full: False
        with "1.prems" d Inr False show ?thesis
          by (simp add: emitLoop.simps [of s] emitJsonEvent_cases)
      next
        case True
        let ?s1 = "s\<lparr>eventCh := eventCh s @ [jsonEvent sess key jsonData]\<rparr>"
        have em: "emitJsonEvent s sess key jsonData = (None, ?s1)"
          using True by (simp add: emitJsonEvent_cases)
        with "1.prems" d Inr False
        have "emitLoop ?s1 sess key decoder' (InputOffset decoder') = (r, s', lg')"
          by (simp add: emitLoop.simps [of s])
        from "1.IH"(2) [OF d [symmetric] Inr False em [symmetric] refl this]
        obtain ps where "sessions s' = sessions s"
          "eventCh s' = eventCh s @ map (jsonEvent sess key) (jsonData # ps)" "[] \<notin> set ps"
          by auto
        with ne show ?thesis by (metis set_ConsD)
      qed
    qed
  qed
qed

text \<open>The only error of the loop is the full channel, and the channel is full then.\<close>

lemma emitLoop_error:
  "emitLoop s sess key dec lg = (Some e, s', lg') \<Longrightarrow>
   e = ChannelFull \<and> eventChCap \<le> length (eventCh s')"
proof (induction s sess key dec lg rule: emitLoop.induct)
  case (1 s sess key decoder lastGoodPosition)
  obtain x decoder' where d: "Decode decoder = (x, decoder')" by (cases "Decode decoder")
  show ?case
  proof (cases x)
    case (Inl e)
    with "1.prems" d show ?thesis by (simp add: emitLoop.simps [of s])
  next
    case (Inr jsonData)
    show ?thesis
    proof (cases "length (TrimSpace jsonData) = 0")
      case True
      with "1.prems" d Inr
      have "emitLoop s sess key decoder' lastGoodPosition = (Some e, s', lg')"
        by (simp add: emitLoop.simps [of s])
      with "1.IH"(1) [OF d [symmetric] Inr True] show ?thesis by simp
    next
      case False
      show ?thesis
      proof (cases "length (eventCh s) < eventChCap")
        case full: False
        with "1.prems" d Inr False show ?thesis
          by (auto simp add: emitLoop.simps [of s] emitJsonEvent_cases)
      next
        case True
        let ?s1 = "s\<lparr>eventCh := eventCh s @ [jsonEvent sess key jsonData]\<rparr>"
        have em: "emitJsonEvent s sess key jsonData = (None, ?s1)"
          using True by (simp add: emitJsonEvent_cases)
        with "1.prems" d Inr False
        have "emitLoop ?s1 sess key decoder' (InputOffset decoder') = (Some e, s', lg')"
          by (simp add: emitLoop.simps [of s])
        from "1.IH"(2) [OF d [symmetric] Inr False em [symmetric] refl this]
        show ?thesis .
      qed
    qed
  qed
qed

text \<open>
  What \<open>tryEmitJsonEvent\<close> can do to the session it is given: it changes nothing but the
  buffer, and on an error not even that.
\<close>

lemma tryEmitJsonEvent_session:
  assumes "tryEmitJsonEvent s sess key = (r, s', sess')"
  shows "session.pid sess' = session.pid sess \<and> comm sess' = comm sess
         \<and> session.filePtr sess' = session.filePtr sess
         \<and> (r \<noteq> None \<longrightarrow> sess' = sess)"
  using assms
  by (auto simp: tryEmitJsonEvent_def Let_def split: if_splits prod.splits option.splits)

lemma tryEmitJsonEvent_events:
  assumes "tryEmitJsonEvent s sess key = (r, s', sess')"
  shows "sessions s' = sessions s \<and>
         (\<exists>ps. eventCh s' = eventCh s @ map (jsonEvent sess key) ps \<and> [] \<notin> set ps)"
proof (cases "length (TrimSpace (buf sess)) = 0
              \<or> (hd (TrimSpace (buf sess)) \<noteq> CHR ''{'' \<and> hd (TrimSpace (buf sess)) \<noteq> CHR ''['')")
  case True
  with assms have "s' = s"
    by (auto simp: tryEmitJsonEvent_def Let_def split: if_splits)
  then show ?thesis by simp
next
  case False
  obtain r0 s0 lg0 where
    l: "emitLoop s sess key (NewDecoder (TrimSpace (buf sess))) 0 = (r0, s0, lg0)"
    by (cases "emitLoop s sess key (NewDecoder (TrimSpace (buf sess))) 0")
  with assms False have "s' = s0"
    by (auto simp: tryEmitJsonEvent_def Let_def split: if_splits option.splits)
  with emitLoop_events [OF l] show ?thesis by simp
qed

lemma tryEmitJsonEvent_error:
  assumes "tryEmitJsonEvent s sess key = (Some er, s', sess')"
  shows "(TrimSpace (buf sess) \<noteq> [] \<and> hd (TrimSpace (buf sess)) \<noteq> CHR ''{''
          \<and> hd (TrimSpace (buf sess)) \<noteq> CHR ''[''
          \<and> er = InvalidStart (hd (TrimSpace (buf sess))))
         \<or> (er = ChannelFull \<and> eventChCap \<le> length (eventCh s'))"
proof (cases "length (TrimSpace (buf sess)) = 0
              \<or> (hd (TrimSpace (buf sess)) \<noteq> CHR ''{'' \<and> hd (TrimSpace (buf sess)) \<noteq> CHR ''['')")
  case True
  with assms show ?thesis
    by (auto simp: tryEmitJsonEvent_def Let_def split: if_splits)
next
  case False
  obtain r0 s0 lg0 where
    l: "emitLoop s sess key (NewDecoder (TrimSpace (buf sess))) 0 = (r0, s0, lg0)"
    by (cases "emitLoop s sess key (NewDecoder (TrimSpace (buf sess))) 0")
  with assms False have "r0 = Some er" and "s' = s0"
    by (auto simp: tryEmitJsonEvent_def Let_def split: if_splits option.splits)
  with emitLoop_error [of s sess key _ 0 er s0 lg0] l show ?thesis by simp
qed

section \<open>Empty events, framing violations and errors\<close>

text \<open>
  An event with captured length zero appends nothing, so that the call is the framing
  decoder run on the session the key has, or on a new one.
\<close>

lemma ProcessFSEvent_empty:
  assumes "BufSize e = 0"
  shows "ProcessFSEvent s e =
     (case tryEmitJsonEvent s (sessionFor s e) (keyOf e) of
        (e', s', sess') \<Rightarrow> (e', s'\<lparr>sessions := (sessions s')(keyOf e \<mapsto> sess')\<rparr>))"
    and "buf (sessionFor s e) = bufferOf s (keyOf e)"
proof -
  show b: "buf (sessionFor s e) = bufferOf s (keyOf e)"
    by (simp add: sessionFor_def bufferOf_def split: option.splits)
  have "Buffer e = []" using assms by (simp add: Buffer_def)
  moreover have "(sessionFor s e)\<lparr>buf := bufferOf s (keyOf e)\<rparr> = sessionFor s e"
    unfolding b [symmetric] by simp
  ultimately show "ProcessFSEvent s e =
     (case tryEmitJsonEvent s (sessionFor s e) (keyOf e) of
        (e', s', sess') \<Rightarrow> (e', s'\<lparr>sessions := (sessions s')(keyOf e \<mapsto> sess')\<rparr>))"
    by (simp add: ProcessFSEvent_alt)
qed

lemma emitLoop_first_fails:
  "isl (fst (Decode dec)) \<Longrightarrow> emitLoop s sess key dec lg = (None, s, lg)"
  by (cases "Decode dec"; cases "fst (Decode dec)") (simp_all add: emitLoop.simps [of s])

lemma emitLoop_first_emitted:
  assumes "fst (Decode dec) = Inr v" and "TrimSpace v \<noteq> []"
    and "length (eventCh s) < eventChCap"
    and "emitLoop s sess key dec lg = (r, s', lg')"
  shows "\<exists>ps. eventCh s' = eventCh s @ jsonEvent sess key v # map (jsonEvent sess key) ps"
proof -
  obtain dec' where d: "Decode dec = (Inr v, dec')" using assms(1) by (cases "Decode dec") simp
  let ?s1 = "s\<lparr>eventCh := eventCh s @ [jsonEvent sess key v]\<rparr>"
  have em: "emitJsonEvent s sess key v = (None, ?s1)"
    using assms(3) by (simp add: emitJsonEvent_cases)
  with d assms(2,4) have "emitLoop ?s1 sess key dec' (InputOffset dec') = (r, s', lg')"
    by (simp add: emitLoop.simps [of s])
  from emitLoop_events [OF this] show ?thesis by auto
qed

text \<open>
  C3 (as stated, refuted): an event with captured length zero is not a no-op. On a new
  manager it creates the session for its key. After \<open>{"a":1} tru\<close> the bytes \<open>tru\<close>
  are buffered, and the empty event returns the framing error for \<open>t\<close>. After
  \<open>{}\<close>, a no-break space (U+00A0) and \<open>{"a":1}\<close>, the second value is buffered behind
  the no-break space, which the decoder rejects and \<open>TrimSpace\<close> removes: the empty
  event emits it.
\<close>

theorem empty_event_counterexample:
  \<open>BufSize (readEvent []) = 0
   \<and> sessions NewSessionManager (keyOf (readEvent [])) = None
   \<and> sessions (snd (ProcessFSEvent NewSessionManager (readEvent []))) (keyOf (readEvent []))
       \<noteq> None
   \<and> fst (ProcessFSEvent NewSessionManager (readEvent ''{"a":1} tru'')) = None
   \<and> fst (ProcessFSEvent (snd (ProcessFSEvent NewSessionManager (readEvent ''{"a":1} tru'')))
             (readEvent [])) = Some (InvalidStart (CHR ''t''))
   \<and> map Payload (eventCh (snd (ProcessFSEvent NewSessionManager
         (readEvent (''{}'' @ [CHR 0xC2, CHR 0xA0] @ ''{"a":1}''))))) = [''{}'']
   \<and> map Payload (eventCh (snd (ProcessFSEvent
         (snd (ProcessFSEvent NewSessionManager
                 (readEvent (''{}'' @ [CHR 0xC2, CHR 0xA0] @ ''{"a":1}''))))
         (readEvent [])))) = [''{}'', ''{"a":1}'']\<close>
  by code_simp

text \<open>
  C3 (amended): an event with captured length zero appends no byte and touches no other
  session, but it creates the session of its key when there is none, and it runs the
  framing decoder on the bytes already buffered. When the trimmed buffer is empty, or
  begins with \<open>{\<close> or \<open>[\<close> and has no complete value at its front, the call returns no
  error, emits nothing and leaves the buffered bytes as they are (a buffer of white space
  alone is emptied). When the trimmed buffer begins with another byte, the framing error
  is returned, with buffer and channel unchanged. When a complete value stands at the
  front of the trimmed buffer and the channel has room, the value is emitted.
\<close>

theorem empty_event_effect:
  assumes "BufSize e = 0"
  shows "(\<forall>k. k \<noteq> keyOf e \<longrightarrow> sessions (snd (ProcessFSEvent s e)) k = sessions s k)
    \<and> sessions (snd (ProcessFSEvent s e)) (keyOf e) \<noteq> None
    \<and> (TrimSpace (bufferOf s (keyOf e)) = [] \<longrightarrow>
          fst (ProcessFSEvent s e) = None
          \<and> eventCh (snd (ProcessFSEvent s e)) = eventCh s
          \<and> bufferOf (snd (ProcessFSEvent s e)) (keyOf e) = [])
    \<and> (TrimSpace (bufferOf s (keyOf e)) \<noteq> []
        \<and> hd (TrimSpace (bufferOf s (keyOf e))) \<noteq> CHR ''{''
        \<and> hd (TrimSpace (bufferOf s (keyOf e))) \<noteq> CHR ''['' \<longrightarrow>
          fst (ProcessFSEvent s e) = Some (InvalidStart (hd (TrimSpace (bufferOf s (keyOf e)))))
          \<and> eventCh (snd (ProcessFSEvent s e)) = eventCh s
          \<and> bufferOf (snd (ProcessFSEvent s e)) (keyOf e) = bufferOf s (keyOf e))
    \<and> (TrimSpace (bufferOf s (keyOf e)) \<noteq> []
        \<and> (hd (TrimSpace (bufferOf s (keyOf e))) = CHR ''{''
            \<or> hd (TrimSpace (bufferOf s (keyOf e))) = CHR ''['')
        \<and> isl (fst (Decode (NewDecoder (TrimSpace (bufferOf s (keyOf e)))))) \<longrightarrow>
          fst (ProcessFSEvent s e) = None
          \<and> eventCh (snd (ProcessFSEvent s e)) = eventCh s
          \<and> bufferOf (snd (ProcessFSEvent s e)) (keyOf e) = bufferOf s (keyOf e))
    \<and> (\<forall>v. TrimSpace (bufferOf s (keyOf e)) \<noteq> []
        \<and> (hd (TrimSpace (bufferOf s (keyOf e))) = CHR ''{''
            \<or> hd (TrimSpace (bufferOf s (keyOf e))) = CHR ''['')
        \<and> fst (Decode (NewDecoder (TrimSpace (bufferOf s (keyOf e))))) = Inr v
        \<and> TrimSpace v \<noteq> [] \<and> length (eventCh s) < eventChCap \<longrightarrow>
          (\<exists>evs. emitted s (snd (ProcessFSEvent s e))
                   = jsonEvent (sessionFor s e) (keyOf e) v # evs))"
proof -
  let ?sess = "sessionFor s e" and ?key = "keyOf e"
  let ?T = "TrimSpace (bufferOf s (keyOf e))"
  note P = ProcessFSEvent_empty [OF assms, of s]
  obtain r s' sess' where t: "tryEmitJsonEvent s ?sess ?key = (r, s', sess')"
    by (cases "tryEmitJsonEvent s ?sess ?key")
  have res: "ProcessFSEvent s e = (r, s'\<lparr>sessions := (sessions s')(?key \<mapsto> sess')\<rparr>)"
    using P(1) t by simp
  from tryEmitJsonEvent_events [OF t] have ss: "sessions s' = sessions s" by simp
  have c1: "\<forall>k. k \<noteq> ?key \<longrightarrow> sessions (snd (ProcessFSEvent s e)) k = sessions s k"
    using res ss by simp
  have c2: "sessions (snd (ProcessFSEvent s e)) ?key \<noteq> None" using res by simp
  have c3: "fst (ProcessFSEvent s e) = None
          \<and> eventCh (snd (ProcessFSEvent s e)) = eventCh s
          \<and> bufferOf (snd (ProcessFSEvent s e)) ?key = []" if "?T = []"
  proof -
    from that t P(2) have "r = None" "s' = s" "sess' = ?sess\<lparr>buf := []\<rparr>"
      by (auto simp: tryEmitJsonEvent_def)
    with res show ?thesis by (simp add: bufferOf_def)
  qed
  have c4: "fst (ProcessFSEvent s e) = Some (InvalidStart (hd ?T))
          \<and> eventCh (snd (ProcessFSEvent s e)) = eventCh s
          \<and> bufferOf (snd (ProcessFSEvent s e)) ?key = bufferOf s ?key"
    if "?T \<noteq> [] \<and> hd ?T \<noteq> CHR ''{'' \<and> hd ?T \<noteq> CHR ''[''"
  proof -
    from that t P(2) have "r = Some (InvalidStart (hd ?T))" "s' = s" "sess' = ?sess"
      by (auto simp: tryEmitJsonEvent_def)
    with res P(2) show ?thesis by (simp add: bufferOf_def)
  qed
  have c5: "fst (ProcessFSEvent s e) = None
          \<and> eventCh (snd (ProcessFSEvent s e)) = eventCh s
          \<and> bufferOf (snd (ProcessFSEvent s e)) ?key = bufferOf s ?key"
    if "?T \<noteq> [] \<and> (hd ?T = CHR ''{'' \<or> hd ?T = CHR ''['')
        \<and> isl (fst (Decode (NewDecoder ?T)))"
  proof -
    from that have "emitLoop s ?sess ?key (NewDecoder ?T) 0 = (None, s, 0)"
      by (simp add: emitLoop_first_fails)
    with that t P(2) have "r = None" "s' = s" "sess' = ?sess"
      by (auto simp: tryEmitJsonEvent_def Let_def)
    with res P(2) show ?thesis by (simp add: bufferOf_def)
  qed
  have c6: "\<exists>evs. emitted s (snd (ProcessFSEvent s e)) = jsonEvent ?sess ?key v # evs"
    if a: "?T \<noteq> [] \<and> (hd ?T = CHR ''{'' \<or> hd ?T = CHR ''['')
        \<and> fst (Decode (NewDecoder ?T)) = Inr v
        \<and> TrimSpace v \<noteq> [] \<and> length (eventCh s) < eventChCap" for v
  proof -
    obtain r0 s0 lg0 where l: "emitLoop s ?sess ?key (NewDecoder ?T) 0 = (r0, s0, lg0)"
      by (cases "emitLoop s ?sess ?key (NewDecoder ?T) 0")
    from a t P(2) l have "s' = s0"
      by (auto simp: tryEmitJsonEvent_def Let_def split: option.splits)
    moreover from emitLoop_first_emitted [OF _ _ _ l, of v] a obtain ps where
      "eventCh s0 = eventCh s @ jsonEvent ?sess ?key v # map (jsonEvent ?sess ?key) ps"
      by blast
    ultimately show ?thesis using res by (simp add: emitted_def)
  qed
  from c1 c2 c3 c4 c5 c6 show ?thesis by blast
qed

text \<open>
  C3 (witness): an incomplete value is buffered; the empty event that follows returns no
  error, emits nothing and leaves the buffer as it was.
\<close>

theorem empty_event_effect_witness:
  \<open>BufSize (readEvent []) = 0
   \<and> fst (ProcessFSEvent (snd (ProcessFSEvent NewSessionManager (readEvent ''{"incomplete":'')))
            (readEvent [])) = None
   \<and> eventCh (snd (ProcessFSEvent
            (snd (ProcessFSEvent NewSessionManager (readEvent ''{"incomplete":'')))
            (readEvent []))) = []
   \<and> bufferOf (snd (ProcessFSEvent
            (snd (ProcessFSEvent NewSessionManager (readEvent ''{"incomplete":'')))
            (readEvent []))) (keyOf (readEvent [])) = ''{"incomplete":''\<close>
proof -
  let ?s = \<open>snd (ProcessFSEvent NewSessionManager (readEvent ''{"incomplete":''))\<close>
  let ?e = "readEvent []"
  have h: "BufSize ?e = 0" by code_simp
  have b: \<open>bufferOf ?s (keyOf ?e) = ''{"incomplete":''\<close> by code_simp
  have t: \<open>TrimSpace ''{"incomplete":'' = ''{"incomplete":''\<close> by code_simp
  have d: \<open>isl (fst (Decode (NewDecoder ''{"incomplete":'')))\<close> by code_simp
  have q: "eventCh ?s = []" by code_simp
  from empty_event_effect [OF h, of ?s]
  have "TrimSpace (bufferOf ?s (keyOf ?e)) \<noteq> []
        \<and> (hd (TrimSpace (bufferOf ?s (keyOf ?e))) = CHR ''{''
            \<or> hd (TrimSpace (bufferOf ?s (keyOf ?e))) = CHR ''['')
        \<and> isl (fst (Decode (NewDecoder (TrimSpace (bufferOf ?s (keyOf ?e)))))) \<longrightarrow>
          fst (ProcessFSEvent ?s ?e) = None
          \<and> eventCh (snd (ProcessFSEvent ?s ?e)) = eventCh ?s
          \<and> bufferOf (snd (ProcessFSEvent ?s ?e)) (keyOf ?e) = bufferOf ?s (keyOf ?e)"
    by blast
  with h b t d q show ?thesis by simp
qed

text \<open>
  C6: when the session's buffer after the append, trimmed of surrounding white space, is
  not empty and begins with neither \<open>{\<close> nor \<open>[\<close>, \<open>ProcessFSEvent\<close> returns an error
  naming that byte and the buffer is exactly the old buffer followed by the event's bytes;
  nothing is emitted and no other session changes.
\<close>

theorem framing_violation_keeps_buffer:
  assumes "TrimSpace (bufferOf s (keyOf e) @ Buffer e) \<noteq> []"
    and "hd (TrimSpace (bufferOf s (keyOf e) @ Buffer e)) \<noteq> CHR ''{''"
    and "hd (TrimSpace (bufferOf s (keyOf e) @ Buffer e)) \<noteq> CHR ''[''"
  shows "fst (ProcessFSEvent s e)
           = Some (InvalidStart (hd (TrimSpace (bufferOf s (keyOf e) @ Buffer e))))
         \<and> bufferOf (snd (ProcessFSEvent s e)) (keyOf e) = bufferOf s (keyOf e) @ Buffer e
         \<and> eventCh (snd (ProcessFSEvent s e)) = eventCh s
         \<and> (\<forall>k. k \<noteq> keyOf e \<longrightarrow> sessions (snd (ProcessFSEvent s e)) k = sessions s k)"
  using assms
  by (simp add: ProcessFSEvent_alt tryEmitJsonEvent_def bufferOf_def)

text \<open>
  C6 (witness): the bytes \<open>x{}\<close> on a new manager.
\<close>

theorem framing_violation_keeps_buffer_witness:
  "fst (ProcessFSEvent NewSessionManager (readEvent ''x{}'')) = Some (InvalidStart (CHR ''x''))
   \<and> bufferOf (snd (ProcessFSEvent NewSessionManager (readEvent ''x{}''))) (keyOf (readEvent ''x{}''))
       = ''x{}''"
proof -
  have t: "TrimSpace (bufferOf NewSessionManager (keyOf (readEvent ''x{}'')) @ Buffer (readEvent ''x{}''))
           = ''x{}''" by code_simp
  have b: "bufferOf NewSessionManager (keyOf (readEvent ''x{}'')) @ Buffer (readEvent ''x{}'') = ''x{}''"
    by code_simp
  show ?thesis
    using framing_violation_keeps_buffer [of NewSessionManager "readEvent ''x{}''"] t b
    by simp
qed

text \<open>
  C7 (as stated, refuted): the append of \<open>hello\<close> succeeds (the buffer holds it
  afterwards), yet \<open>ProcessFSEvent\<close> returns an error.
\<close>

theorem error_without_append_failure_counterexample:
  "fst (ProcessFSEvent NewSessionManager (readEvent ''hello'')) = Some (InvalidStart (CHR ''h''))
   \<and> bufferOf (snd (ProcessFSEvent NewSessionManager (readEvent ''hello'')))
        (keyOf (readEvent ''hello'')) = ''hello''"
  by code_simp

text \<open>
  C7 (amended): the append itself never fails, and \<open>ProcessFSEvent\<close> returns an error
  only for one of two causes: a framing violation (the trimmed buffer is not empty and
  begins with neither \<open>{\<close> nor \<open>[\<close>), or an output channel that is full when a completed
  value is to be sent.
\<close>

theorem ProcessFSEvent_error_causes:
  assumes "fst (ProcessFSEvent s e) = Some er"
  shows "(TrimSpace (bufferOf s (keyOf e) @ Buffer e) \<noteq> []
           \<and> hd (TrimSpace (bufferOf s (keyOf e) @ Buffer e)) \<noteq> CHR ''{''
           \<and> hd (TrimSpace (bufferOf s (keyOf e) @ Buffer e)) \<noteq> CHR ''[''
           \<and> er = InvalidStart (hd (TrimSpace (bufferOf s (keyOf e) @ Buffer e))))
         \<or> (er = ChannelFull \<and> eventChCap \<le> length (eventCh (snd (ProcessFSEvent s e))))"
proof -
  let ?sess = "(sessionFor s e)\<lparr>buf := bufferOf s (keyOf e) @ Buffer e\<rparr>"
  obtain r s' sess' where t: "tryEmitJsonEvent s ?sess (keyOf e) = (r, s', sess')"
    by (cases "tryEmitJsonEvent s ?sess (keyOf e)")
  with assms have r: "r = Some er" by (simp add: ProcessFSEvent_alt)
  from tryEmitJsonEvent_error [OF t [unfolded r]]
  have "(TrimSpace (buf ?sess) \<noteq> [] \<and> hd (TrimSpace (buf ?sess)) \<noteq> CHR ''{''
          \<and> hd (TrimSpace (buf ?sess)) \<noteq> CHR ''[''
          \<and> er = InvalidStart (hd (TrimSpace (buf ?sess))))
         \<or> (er = ChannelFull \<and> eventChCap \<le> length (eventCh s'))" .
  then show ?thesis using t by (simp add: ProcessFSEvent_alt)
qed

text \<open>
  C7 (witness): a complete value arriving while 100 events wait in the channel.
\<close>

theorem ProcessFSEvent_error_causes_witness:
  "fst (ProcessFSEvent (managerWithPending 100) (readEvent ''[1]'')) = Some ChannelFull
   \<and> eventChCap \<le> length (eventCh (snd (ProcessFSEvent (managerWithPending 100) (readEvent ''[1]''))))"
proof -
  have h: "fst (ProcessFSEvent (managerWithPending 100) (readEvent ''[1]'')) = Some ChannelFull"
    by code_simp
  from ProcessFSEvent_error_causes [OF h] h show ?thesis by simp
qed

section \<open>Cleanup, event identity and the full channel\<close>



text \<open>
  C9: every event a call of \<open>ProcessFSEvent\<close> emits has type JsonRead for a Read event
  and JsonWrite for a Write event, and carries the process id, command name and file
  handle of the session. The session keeps these three fields through the call, and an
  existing session's command name is the one used, whatever name the event carries.
\<close>

theorem emitted_events_carry_session:
  "(\<forall>ev \<in> set (emitted s (snd (ProcessFSEvent s e))).
      (EventType e = EventTypeFSRead \<longrightarrow> EventType ev = EventTypeFSJsonRead)
      \<and> (EventType e = EventTypeFSWrite \<longrightarrow> EventType ev = EventTypeFSJsonWrite)
      \<and> PID ev = session.pid (sessionFor s e)
      \<and> CommBytes ev = comm (sessionFor s e)
      \<and> FSJsonEvent.FilePtr ev = session.filePtr (sessionFor s e))
   \<and> (\<exists>sess'. sessions (snd (ProcessFSEvent s e)) (keyOf e) = Some sess'
         \<and> session.pid sess' = session.pid (sessionFor s e)
         \<and> comm sess' = comm (sessionFor s e)
         \<and> session.filePtr sess' = session.filePtr (sessionFor s e))
   \<and> (\<forall>sess. sessions s (keyOf e) = Some sess \<longrightarrow> comm (sessionFor s e) = comm sess)"
proof -
  let ?sess = "(sessionFor s e)\<lparr>buf := bufferOf s (keyOf e) @ Buffer e\<rparr>"
  obtain r s' sess' where t: "tryEmitJsonEvent s ?sess (keyOf e) = (r, s', sess')"
    by (cases "tryEmitJsonEvent s ?sess (keyOf e)")
  from tryEmitJsonEvent_events [OF t] obtain ps where
    ps: "eventCh s' = eventCh s @ map (jsonEvent ?sess (keyOf e)) ps" by blast
  have em: "emitted s (snd (ProcessFSEvent s e)) = map (jsonEvent ?sess (keyOf e)) ps"
    using t ps by (simp add: ProcessFSEvent_alt emitted_def)
  have ev: "(EventType e = EventTypeFSRead \<longrightarrow> EventType ev = EventTypeFSJsonRead)
      \<and> (EventType e = EventTypeFSWrite \<longrightarrow> EventType ev = EventTypeFSJsonWrite)
      \<and> PID ev = session.pid (sessionFor s e)
      \<and> CommBytes ev = comm (sessionFor s e)
      \<and> FSJsonEvent.FilePtr ev = session.filePtr (sessionFor s e)"
    if "ev \<in> set (map (jsonEvent ?sess (keyOf e)) ps)" for ev
    using that by (auto simp: jsonEvent_def keyOf_def)
  have st: "sessions (snd (ProcessFSEvent s e)) (keyOf e) = Some sess'"
    using t by (simp add: ProcessFSEvent_alt)
  from tryEmitJsonEvent_session [OF t]
  have same: "session.pid sess' = session.pid (sessionFor s e)
         \<and> comm sess' = comm (sessionFor s e)
         \<and> session.filePtr sess' = session.filePtr (sessionFor s e)" by simp
  have old: "comm (sessionFor s e) = comm sess" if "sessions s (keyOf e) = Some sess" for sess
    using that by (simp add: sessionFor_def)
  show ?thesis
  proof (intro conjI)
    show "\<forall>ev \<in> set (emitted s (snd (ProcessFSEvent s e))).
      (EventType e = EventTypeFSRead \<longrightarrow> EventType ev = EventTypeFSJsonRead)
      \<and> (EventType e = EventTypeFSWrite \<longrightarrow> EventType ev = EventTypeFSJsonWrite)
      \<and> PID ev = session.pid (sessionFor s e)
      \<and> CommBytes ev = comm (sessionFor s e)
      \<and> FSJsonEvent.FilePtr ev = session.filePtr (sessionFor s e)"
      unfolding em using ev by blast
    show "\<exists>sess'. sessions (snd (ProcessFSEvent s e)) (keyOf e) = Some sess'
         \<and> session.pid sess' = session.pid (sessionFor s e)
         \<and> comm sess' = comm (sessionFor s e)
         \<and> session.filePtr sess' = session.filePtr (sessionFor s e)"
      using st same by blast
    show "\<forall>sess. sessions s (keyOf e) = Some sess \<longrightarrow> comm (sessionFor s e) = comm sess"
      using old by blast
  qed
qed

text \<open>
  C9 (witness): a value arrives in two Write events, the second under another command
  name; the emitted event carries the name captured when the session was created.
\<close>

theorem emitted_events_carry_session_witness:
  \<open>map CommBytes (emitted
      (snd (ProcessFSEvent NewSessionManager (dataEvent EventTypeFSWrite ''mcp-server'' ''{"id":'')))
      (snd (ProcessFSEvent
              (snd (ProcessFSEvent NewSessionManager (dataEvent EventTypeFSWrite ''mcp-server'' ''{"id":'')))
              (dataEvent EventTypeFSWrite ''renamed'' ''1}''))))
    = [''mcp-server'']
   \<and> map EventType (emitted
      (snd (ProcessFSEvent NewSessionManager (dataEvent EventTypeFSWrite ''mcp-server'' ''{"id":'')))
      (snd (ProcessFSEvent
              (snd (ProcessFSEvent NewSessionManager (dataEvent EventTypeFSWrite ''mcp-server'' ''{"id":'')))
              (dataEvent EventTypeFSWrite ''renamed'' ''1}''))))
    = [EventTypeFSJsonWrite]\<close>
proof -
  let ?s = \<open>snd (ProcessFSEvent NewSessionManager (dataEvent EventTypeFSWrite ''mcp-server'' ''{"id":''))\<close>
  let ?e = \<open>dataEvent EventTypeFSWrite ''renamed'' ''1}''\<close>
  have n: \<open>map Payload (emitted ?s (snd (ProcessFSEvent ?s ?e))) = [''{"id":1}'']\<close>
    by code_simp
  then obtain ev where one: "emitted ?s (snd (ProcessFSEvent ?s ?e)) = [ev]" by auto
  have c: "comm (sessionFor ?s ?e) = ''mcp-server''" by code_simp
  have w: "EventType ?e = EventTypeFSWrite" by code_simp
  from emitted_events_carry_session [of ?s ?e] one
  have "(EventType ?e = EventTypeFSWrite \<longrightarrow> EventType ev = EventTypeFSJsonWrite)
        \<and> CommBytes ev = comm (sessionFor ?s ?e)" by simp
  with one c w show ?thesis by simp
qed

text \<open>
  C2 (the code at the failing input): 99 events wait in the channel and one event brings
  two complete values. The first is emitted, the second finds the channel full, and the
  call returns through the early \<open>return err\<close> of the loop, before the buffer update: the
  buffer still holds the bytes of the value already emitted.
\<close>

theorem full_channel_keeps_emitted_bytes:
  \<open>fst (ProcessFSEvent (managerWithPending 99) (readEvent ''{"a":1} {"b":2}'')) = Some ChannelFull
   \<and> map Payload (emitted (managerWithPending 99)
        (snd (ProcessFSEvent (managerWithPending 99) (readEvent ''{"a":1} {"b":2}''))))
       = [''{"a":1}'']
   \<and> bufferOf (snd (ProcessFSEvent (managerWithPending 99) (readEvent ''{"a":1} {"b":2}'')))
        (keyOf (readEvent ''{"a":1} {"b":2}'')) = ''{"a":1} {"b":2}''\<close>
  by code_simp

text \<open>
  C5 (the code at the failing input): the channel is full when a complete value arrives.
  The call reports the full channel and emits nothing, but the value stays in the
  session's buffer; once the consumer has emptied the channel, the next event on the
  key emits it, before the value that event brings.
\<close>

theorem full_channel_value_retried:
  \<open>fst (ProcessFSEvent (managerWithPending 100) (readEvent ''{"b":2}'')) = Some ChannelFull
   \<and> map Payload (emitted (managerWithPending 100)
        (snd (ProcessFSEvent (managerWithPending 100) (readEvent ''{"b":2}'')))) = []
   \<and> bufferOf (snd (ProcessFSEvent (managerWithPending 100) (readEvent ''{"b":2}'')))
        (keyOf (readEvent ''{"b":2}'')) = ''{"b":2}''
   \<and> map Payload (eventCh (snd (ProcessFSEvent
        (receiveAll (snd (ProcessFSEvent (managerWithPending 100) (readEvent ''{"b":2}''))))
        (readEvent ''{"c":3}'')))) = [''{"b":2}'', ''{"c":3}'']\<close>
  by code_simp

section \<open>The scanner on complete values\<close>

lemma scanValue_scanRun: "scanValue s cs n = atEOF (scanRun s cs n)"
  by (induction cs arbitrary: s n) (auto simp: atEOF_def split: prod.splits)

lemma scanRun_append:
  "scanRun s (xs @ ys) n = (case scanRun s xs n of Open s' m \<Rightarrow> scanRun s' ys m | r \<Rightarrow> r)"
  by (induction xs arbitrary: s n) (auto split: prod.splits)

lemma scanRun_Open_length: "scanRun s cs n = Open s' m \<Longrightarrow> m = n + length cs"
proof (induction cs arbitrary: s n)
  case Nil
  then show ?case by simp
next
  case (Cons c cs)
  obtain code s1 where st: "scan_step s c = (code, s1)" by (cases "scan_step s c")
  with Cons.prems have "scanRun s1 cs (n + 1) = Open s' m"
    by (simp split: if_splits)
  from Cons.IH [OF this] show ?case by simp
qed

lemmas step_defs =
  scan_step_def stateBeginValue_f_def stateBeginValueOrEmpty_f_def stateBeginStringOrEmpty_f_def
  stateBeginString_f_def stateEndValue_f_def stateEndTop_f_def stateInString_f_def
  stateInStringEsc_f_def stateNeg_f_def state0_f_def state1_f_def stateDot_f_def stateDot0_f_def
  stateE_f_def stateESign_f_def stateE0_f_def expectHex_def expect_def continue_def
  scan_error_def pushParseState_def popParseState_def

lemma space_facts:
  "isSpace c \<Longrightarrow> \<not> isDigit c \<and> \<not> isDigit19 c \<and> \<not> isHex c \<and> c \<noteq> CHR ''.'' \<and> c \<noteq> CHR ''e'' \<and> c \<noteq> CHR ''E''
     \<and> c \<noteq> CHR ''{'' \<and> c \<noteq> CHR ''['' \<and> c \<noteq> CHR ''}'' \<and> c \<noteq> CHR '']'' \<and> c \<noteq> CHR '':'' \<and> c \<noteq> CHR '',''"
  by (auto simp: isSpace_def isDigit_def isDigit19_def isHex_def)

lemma isSpace_space: "isSpace (CHR '' '')"
  by (simp add: isSpace_def)

lemma scan_step_space_End:
  "isSpace c \<Longrightarrow> (fst (scan_step s c) = scanEnd) = endsAt s"
  by (cases "step s"; cases "parseState s")
     (simp_all add: step_defs endsAt_def space_facts Let_def split: parse.splits)

lemma plain_digit: "isDigit c \<Longrightarrow> plain c"
proof -
  assume d: "isDigit c"
  then have r: "(48::nat) \<le> of_char c" "of_char c \<le> (57::nat)"
    by (simp_all add: isDigit_def less_eq_char_def)
  then have "c < CHR 0x80" by (simp add: less_char_def)
  moreover from r have "\<not> asciiSpace c" by (auto simp: asciiSpace_def)
  ultimately show ?thesis by (simp add: plain_def)
qed

lemma plain_digit19: "isDigit19 c \<Longrightarrow> plain c"
proof -
  assume "isDigit19 c"
  then have "isDigit c" by (simp add: isDigit_def isDigit19_def less_eq_char_def)
  then show ?thesis by (rule plain_digit)
qed

lemma plain_chars:
  "plain (CHR ''{'')" "plain (CHR ''['')" "plain (CHR ''}'')" "plain (CHR '']'')"
  "plain (CHR 0x22)" "plain (CHR ''-'')" "plain (CHR ''0'')" "plain (CHR ''t'')"
  "plain (CHR ''f'')" "plain (CHR ''n'')" "plain (CHR ''e'')" "plain (CHR ''l'')"
  by (simp_all add: plain_def asciiSpace_def)

lemma isSpace_asciiSpace: "isSpace c \<Longrightarrow> asciiSpace c"
  by (auto simp: isSpace_def asciiSpace_def)

lemma scan_step_reset_plain:
  "\<not> isSpace c \<Longrightarrow> fst (scan_step reset c) \<noteq> scanError \<Longrightarrow> plain c"
  by (auto simp: scan_step_def reset_def stateBeginValue_f_def scan_error_def
      pushParseState_def Let_def plain_chars plain_digit19 split: if_splits)

lemma scan_step_End_plain:
  assumes "fst (scan_step s c) = scanEndObject \<or> fst (scan_step s c) = scanEndArray"
  shows "plain c"
  using assms
  by (cases "step s"; cases "parseState s")
     (auto simp: step_defs Let_def plain_chars split: parse.splits if_splits)

lemma scan_step_endsAt_plain:
  assumes "fst (scan_step s c) \<noteq> scanEnd" and "fst (scan_step s c) \<noteq> scanError"
    and "endsAt (snd (scan_step s c))"
  shows "plain c"
  using assms
  by (cases "step s"; cases "parseState s")
     (auto simp: step_defs endsAt_def Let_def plain_chars plain_digit plain_digit19
        split: parse.splits if_splits)


text \<open>A run that uses up its input and ends with it ends on a plain byte.\<close>

lemma scanRun_last_plain:
  assumes "cs \<noteq> []"
    and "scanRun s cs n = Ended (n + length cs)
         \<or> (\<exists>s'. scanRun s cs n = Open s' (n + length cs) \<and> endsAt s')"
  shows "plain (last cs)"
  using assms
proof (induction cs arbitrary: s n)
  case Nil
  then show ?case by simp
next
  case (Cons c cs)
  obtain code s1 where st: "scan_step s c = (code, s1)" by (cases "scan_step s c")
  show ?case
  proof (cases "cs = []")
    case True
    from Cons.prems(2) show ?thesis
    proof
      assume "scanRun s (c # cs) n = Ended (n + length (c # cs))"
      with st True have "code = scanEndObject \<or> code = scanEndArray"
        by (auto split: if_splits)
      with st scan_step_End_plain [of s c] True show ?thesis by simp
    next
      assume "\<exists>s'. scanRun s (c # cs) n = Open s' (n + length (c # cs)) \<and> endsAt s'"
      with st True have "code \<noteq> scanEnd" "code \<noteq> scanError" "endsAt s1"
        by (auto split: if_splits)
      with st scan_step_endsAt_plain [of s c] True show ?thesis by simp
    qed
  next
    case False
    have "scanRun s1 cs (n + 1) = Ended (n + 1 + length cs)
         \<or> (\<exists>s'. scanRun s1 cs (n + 1) = Open s' (n + 1 + length cs) \<and> endsAt s')"
      using Cons.prems(2)
    proof
      assume a: "scanRun s (c # cs) n = Ended (n + length (c # cs))"
      have "scanRun s1 cs (n + 1) = Ended (n + 1 + length cs)"
      proof (rule ccontr)
        assume "scanRun s1 cs (n + 1) \<noteq> Ended (n + 1 + length cs)"
        with a st have "n + length (c # cs) = n \<or> n + length (c # cs) = n + 1"
          by (auto split: if_splits)
        with False show False by simp
      qed
      then show ?thesis by simp
    next
      assume "\<exists>s'. scanRun s (c # cs) n = Open s' (n + length (c # cs)) \<and> endsAt s'"
      with st show ?thesis by (auto split: if_splits)
    qed
    from Cons.IH [OF False this] False show ?thesis by simp
  qed
qed

lemma inside_not_endsAt: "inside s \<Longrightarrow> \<not> endsAt s"
  by (auto simp: inside_def endsAt_def)

lemma stateEndValue_space_End:
  "(fst (stateEndValue_f s (CHR '' '')) = scanEnd) = (parseState s = [])"
  by (cases "parseState s")
     (simp_all add: stateEndValue_f_def stateEndTop_f_def isSpace_space)

lemma inside_step:
  assumes "inside s" and "fst (scan_step s c) \<noteq> scanError"
    and "parseState (snd (scan_step s c)) \<noteq> []"
  shows "inside (snd (scan_step s c))"
  using assms
  by (cases "step s"; cases "parseState s")
     (auto simp: step_defs inside_def Let_def split: parse.splits if_splits)

lemma inside_step_codes:
  assumes "inside s"
  shows "fst (scan_step s c) \<noteq> scanEnd"
    and "parseState (snd (scan_step s c)) = [] \<Longrightarrow>
         fst (scan_step s c) = scanEndObject \<or> fst (scan_step s c) = scanEndArray
         \<or> fst (scan_step s c) = scanError"
  using assms
  by (cases "step s"; cases "parseState s";
      auto simp: step_defs inside_def Let_def split: parse.splits if_splits)+

lemma scanRun_inside:
  "inside s \<Longrightarrow> scanRun s cs n = Open s' m \<Longrightarrow> inside s'"
proof (induction cs arbitrary: s n)
  case Nil
  then show ?case by simp
next
  case (Cons c cs)
  obtain code s1 where st: "scan_step s c = (code, s1)" by (cases "scan_step s c")
  with Cons.prems(2) have r: "scanRun s1 cs (n + 1) = Open s' m" and ne: "code \<noteq> scanError"
    and nf: "\<not> ((code = scanEndObject \<or> code = scanEndArray)
                \<and> fst (stateEndValue_f s1 (CHR '' '')) = scanEnd)"
    by (auto split: if_splits)
  have "parseState s1 \<noteq> []"
  proof
    assume e: "parseState s1 = []"
    with inside_step_codes(2) [OF Cons.prems(1), of c] st ne
    have "code = scanEndObject \<or> code = scanEndArray" by simp
    with nf e show False by (simp add: stateEndValue_space_End)
  qed
  with inside_step [OF Cons.prems(1), of c] st ne have "inside s1" by simp
  from Cons.IH [OF this r] show ?case .
qed

lemma scanRun_shift:
  "scanRun s cs (n + k) =
     (case scanRun s cs n of
        Ended m \<Rightarrow> Ended (m + k) | Broke \<Rightarrow> Broke | Open s' m \<Rightarrow> Open s' (m + k))"
proof (induction cs arbitrary: s n)
  case Nil
  then show ?case by simp
next
  case (Cons c cs)
  obtain code s1 where st: "scan_step s c = (code, s1)" by (cases "scan_step s c")
  from Cons.IH [of s1 "n + 1"] have "scanRun s1 cs (Suc (n + k)) =
     (case scanRun s1 cs (Suc n) of
        Ended m \<Rightarrow> Ended (m + k) | Broke \<Rightarrow> Broke | Open s' m \<Rightarrow> Open s' (m + k))"
    by (simp add: add.commute add.left_commute)
  with st show ?case by simp
qed

lemma scan_step_reset_space: "isSpace c \<Longrightarrow> scan_step reset c = (scanSkipSpace, reset)"
  by (simp add: scan_step_def reset_def stateBeginValue_f_def)

lemma scanRun_skip_spaces:
  "allSpace w \<Longrightarrow> scanRun reset (w @ cs) n = scanRun reset cs (n + length w)"
  by (induction w arbitrary: n) (simp_all add: allSpace_def scan_step_reset_space)

lemma value_run:
  assumes "isValue v"
  shows "scanRun reset v 0 = Ended (length v)
         \<or> (\<exists>s'. scanRun reset v 0 = Open s' (length v) \<and> endsAt s')"
proof (cases "scanRun reset v 0")
  case (Ended m)
  with assms show ?thesis by (simp add: isValue_def scanValue_scanRun atEOF_def)
next
  case Broke
  with assms show ?thesis by (simp add: isValue_def scanValue_scanRun atEOF_def)
next
  case (Open s' m)
  with assms have "fst (scan_step s' (CHR '' '')) = scanEnd" and "m = length v"
    by (auto simp: isValue_def scanValue_scanRun atEOF_def split: if_splits)
  with Open show ?thesis by (simp add: scan_step_space_End [OF isSpace_space])
qed

lemma isValue_last_plain: "isValue v \<Longrightarrow> plain (last v)"
  using scanRun_last_plain [of v reset 0] value_run [of v] by (simp add: isValue_def)

lemma isValue_hd_plain:
  assumes "isValue v"
  shows "plain (hd v)"
proof -
  from assms obtain c cs where v: "v = c # cs" by (cases v) (auto simp: isValue_def)
  obtain code s1 where st: "scan_step reset c = (code, s1)" by (cases "scan_step reset c")
  have "code \<noteq> scanError"
  proof
    assume "code = scanError"
    with st v have "scanValue reset v 0 = Failed" by simp
    with assms show False by (simp add: isValue_def)
  qed
  with scan_step_reset_plain [of c] st assms v show ?thesis by (simp add: isValue_def)
qed

lemma scan_step_reset_open:
  assumes "c = CHR ''{'' \<or> c = CHR ''[''"
  shows "fst (scan_step reset c) \<noteq> scanEnd \<and> fst (scan_step reset c) \<noteq> scanError
         \<and> fst (scan_step reset c) \<noteq> scanEndObject \<and> fst (scan_step reset c) \<noteq> scanEndArray
         \<and> inside (snd (scan_step reset c))"
  using assms
  by (auto simp: scan_step_def reset_def stateBeginValue_f_def pushParseState_def Let_def
      maxNestingDepth_def inside_def isSpace_def)

lemma composite_run:
  assumes "isComposite v"
  shows "scanRun reset v 0 = Ended (length v)"
proof -
  from assms have val: "isValue v" and br: "hd v = CHR ''{'' \<or> hd v = CHR ''[''"
    by (simp_all add: isComposite_def)
  from val obtain c cs where v: "v = c # cs" by (cases v) (auto simp: isValue_def)
  obtain code s1 where st: "scan_step reset c = (code, s1)" by (cases "scan_step reset c")
  from scan_step_reset_open [of c] br v st
  have codes: "code \<noteq> scanEnd" "code \<noteq> scanError" "code \<noteq> scanEndObject"
    "code \<noteq> scanEndArray" and ins: "inside s1" by simp_all
  then have run: "scanRun reset v 0 = scanRun s1 cs 1" using v st by simp
  from value_run [OF val] show ?thesis
  proof
    assume "\<exists>s'. scanRun reset v 0 = Open s' (length v) \<and> endsAt s'"
    then obtain s' where "scanRun s1 cs 1 = Open s' (length v)" and "endsAt s'"
      using run by auto
    with scanRun_inside [OF ins] inside_not_endsAt show ?thesis by blast
  qed
qed

text \<open>
  A complete value is found again when white space precedes it and when it is followed
  by the end of the input or by white space; a composite, whatever follows it.
\<close>

lemma scanValue_value:
  assumes "allSpace w" and "isValue v"
    and "rest = [] \<or> isSpace (hd rest) \<or> isComposite v"
  shows "scanValue reset (w @ v @ rest) 0 = Complete (length w + length v)"
proof -
  have skip: "scanRun reset (w @ v @ rest) 0 = scanRun reset (v @ rest) (length w)"
    using scanRun_skip_spaces [OF assms(1), of "v @ rest" 0] by simp
  have sh: "scanRun reset (v @ rest) (length w) =
     (case scanRun reset (v @ rest) 0 of
        Ended m \<Rightarrow> Ended (m + length w) | Broke \<Rightarrow> Broke | Open s' m \<Rightarrow> Open s' (m + length w))"
    using scanRun_shift [of reset "v @ rest" 0 "length w"] by simp
  have "atEOF (scanRun reset (v @ rest) 0) = Complete (length v)"
  proof (cases "scanRun reset v 0 = Ended (length v)")
    case True
    then show ?thesis by (simp add: scanRun_append atEOF_def)
  next
    case False
    with value_run [OF assms(2)] obtain s' where
      op: "scanRun reset v 0 = Open s' (length v)" and e: "endsAt s'" by blast
    from False composite_run have nc: "\<not> isComposite v" by blast
    show ?thesis
    proof (cases rest)
      case Nil
      with op e show ?thesis
        by (simp add: atEOF_def scan_step_space_End [OF isSpace_space])
    next
      case (Cons c cs)
      with assms(3) nc have sp: "isSpace c" by simp
      obtain code s1 where st: "scan_step s' c = (code, s1)" by (cases "scan_step s' c")
      with scan_step_space_End [OF sp, of s'] e have "code = scanEnd" by simp
      with op Cons st show ?thesis by (simp add: scanRun_append atEOF_def)
    qed
  qed
  then show ?thesis
    by (cases "scanRun reset (v @ rest) 0")
       (auto simp: scanValue_scanRun skip sh atEOF_def add.commute split: if_splits)
qed

lemma dropWhile_space_value:
  assumes "allSpace w" and "isValue v"
  shows "dropWhile isSpace (w @ v) = v"
proof -
  from assms(2) obtain c cs where "v = c # cs" "\<not> isSpace c"
    by (cases v) (auto simp: isValue_def)
  with assms(1) show ?thesis by (simp add: allSpace_def dropWhile_append3)
qed

lemma Decode_value:
  assumes "derr dec = None" and "drop (offset dec) (input dec) = w @ v @ rest"
    and "allSpace w" and "isValue v"
    and "rest = [] \<or> isSpace (hd rest) \<or> isComposite v"
  shows "Decode dec = (Inr v, dec\<lparr>offset := offset dec + (length w + length v)\<rparr>)"
  using assms(1,2) scanValue_value [OF assms(3,4,5)] dropWhile_space_value [OF assms(3,4)]
  by (simp add: Decode_def Let_def)

lemma plain_not_unicode_lead:
  assumes "plain c"
  shows "c \<noteq> CHR 0xC2 \<and> c \<noteq> CHR 0xE1 \<and> c \<noteq> CHR 0xE2 \<and> c \<noteq> CHR 0xE3"
  using assms by (auto simp: plain_def less_char_def)

lemma plain_not_unicode_trail:
  assumes "plain c"
  shows "c \<notin> last ` set unicodeSpaces"
  using assms by (auto simp: plain_def less_char_def unicodeSpaces_def)

lemma leadingSpace_plain: "plain c \<Longrightarrow> leadingSpace (c # x) = None"
  using plain_not_unicode_lead [of c]
  by (auto simp: leadingSpace_def plain_def unicodeSpaces_def)

lemma trimLeft_plain: "plain c \<Longrightarrow> trimLeft (c # x) = c # x"
  by (simp add: trimLeft.simps [of "c # x"] leadingSpace_plain)

lemma trimLeft_space: "asciiSpace c \<Longrightarrow> trimLeft (c # x) = trimLeft x"
  by (simp add: trimLeft.simps [of "c # x"] leadingSpace_def)

lemma trimLeft_spaces: "allSpace w \<Longrightarrow> trimLeft (w @ x) = trimLeft x"
  by (induction w) (simp_all add: allSpace_def trimLeft_space isSpace_asciiSpace)

lemma drop_eq_last:
  assumes "drop k x = e" and "e \<noteq> []"
  shows "last x = last e"
  using assms by (metis append_take_drop_id last_appendR)

lemma trailingSpace_plain:
  assumes "x \<noteq> []" and "plain (last x)"
  shows "trailingSpace x = None"
proof -
  have "\<not> (length e \<le> length x \<and> drop (length x - length e) x = e)"
    if "e \<in> set unicodeSpaces" for e
  proof
    assume a: "length e \<le> length x \<and> drop (length x - length e) x = e"
    from that have "e \<noteq> []" by (auto simp: unicodeSpaces_def)
    with a drop_eq_last have "last x = last e" by blast
    with that plain_not_unicode_trail [OF assms(2)] show False by auto
  qed
  then have "find (\<lambda>e. length e \<le> length x \<and> drop (length x - length e) x = e) unicodeSpaces
             = None"
    by (simp add: find_None_iff)
  with assms show ?thesis by (simp add: trailingSpace_def plain_def)
qed

lemma trimRight_plain: "x \<noteq> [] \<Longrightarrow> plain (last x) \<Longrightarrow> trimRight x = x"
  by (simp add: trimRight.simps [of x] trailingSpace_plain)

lemma trimRight_space: "asciiSpace c \<Longrightarrow> trimRight (x @ [c]) = trimRight x"
  by (simp add: trimRight.simps [of "x @ [c]"] trailingSpace_def)

lemma trimRight_spaces: "allSpace w \<Longrightarrow> trimRight (x @ w) = trimRight x"
proof (induction w rule: rev_induct)
  case Nil
  then show ?case by simp
next
  case (snoc c w)
  then have "asciiSpace c" and "allSpace w" by (simp_all add: allSpace_def isSpace_asciiSpace)
  with snoc.IH trimRight_space [of c "x @ w"] show ?case by simp
qed

lemma TrimSpace_body:
  assumes "allSpace w1" and "allSpace w2" and "x \<noteq> []" and "plain (hd x)" and "plain (last x)"
  shows "TrimSpace (w1 @ x @ w2) = x"
proof -
  from assms(3,4) have "trimLeft (x @ w2) = x @ w2"
    by (cases x) (simp_all add: trimLeft_plain)
  with assms show ?thesis
    by (simp add: TrimSpace_def trimLeft_spaces trimRight_spaces trimRight_plain)
qed

lemma TrimSpace_value: "isValue v \<Longrightarrow> TrimSpace v = v"
  using TrimSpace_body [of "[]" "[]" v] isValue_hd_plain [of v] isValue_last_plain [of v]
  by (simp add: allSpace_def isValue_def)


lemma joinValues_simps [simp]:
  "joinValues [] = []"
  "joinValues ((w, v) # items) = w @ v @ joinValues items"
  by (simp_all add: joinValues_def)

lemma scanValue_reset_Nil: "scanValue reset [] 0 = AtEOF"
  using scan_step_reset [of "CHR '' ''"] by simp

lemma Decode_fails:
  assumes "derr dec = None"
    and "\<forall>n. scanValue reset (drop (offset dec) (input dec)) 0 \<noteq> Complete n"
  shows "\<exists>e dec'. Decode dec = (Inl e, dec')"
  using assms
  by (cases "scanValue reset (drop (offset dec) (input dec)) 0")
     (simp_all add: Decode_def Let_def)

lemma drop_past:
  assumes "drop n xs = a @ b"
  shows "drop (n + length a) xs = b"
proof -
  have "drop (n + length a) xs = drop (length a) (drop n xs)"
    by (simp add: add.commute)
  with assms show ?thesis by simp
qed

lemma jsonEvent_buf [simp]: "jsonEvent (sess\<lparr>buf := b\<rparr>) key p = jsonEvent sess key p"
  by (simp add: jsonEvent_def)

lemma emitLoop_items:
  assumes "derr dec = None"
    and "drop (offset dec) (input dec) = joinValues items @ t"
    and "framed items t"
    and "\<forall>n. scanValue reset t 0 \<noteq> Complete n"
    and "length (eventCh s) + length items \<le> eventChCap"
  shows "emitLoop s sess key dec lg =
           (None, s\<lparr>eventCh := eventCh s @ map (jsonEvent sess key) (map snd items)\<rparr>,
            if items = [] then lg else offset dec + length (joinValues items))"
  using assms
proof (induction items arbitrary: s dec lg)
  case Nil
  then have "\<exists>e dec'. Decode dec = (Inl e, dec')"
    using Decode_fails [of dec] by simp
  then show ?case by (auto simp: emitLoop.simps [of s])
next
  case (Cons item items)
  obtain w v where item: "item = (w, v)" by (cases item)
  let ?rest = "joinValues items @ t"
  let ?dec' = "dec\<lparr>offset := offset dec + (length w + length v)\<rparr>"
  from Cons.prems(3) item have fr: "allSpace w" "isValue v"
    "?rest = [] \<or> isSpace (hd ?rest) \<or> isComposite v" "framed items t"
    by simp_all
  from Cons.prems(2) item have dr: "drop (offset dec) (input dec) = w @ v @ ?rest" by simp
  have d: "Decode dec = (Inr v, ?dec')"
    by (rule Decode_value [OF Cons.prems(1) dr fr(1,2,3)])
  have tv: "length (TrimSpace v) \<noteq> 0"
    using fr(2) by (simp add: TrimSpace_value isValue_def)
  let ?s1 = "s\<lparr>eventCh := eventCh s @ [jsonEvent sess key v]\<rparr>"
  have em: "emitJsonEvent s sess key v = (None, ?s1)"
    using Cons.prems(5) by (simp add: emitJsonEvent_cases)
  have step: "emitLoop s sess key dec lg = emitLoop ?s1 sess key ?dec' (InputOffset ?dec')"
    using d tv em by (simp add: emitLoop.simps [of s])
  have dr': "drop (offset ?dec') (input ?dec') = joinValues items @ t"
    using drop_past [of "offset dec" "input dec" "w @ v" ?rest] dr by simp
  have "emitLoop ?s1 sess key ?dec' (InputOffset ?dec') =
           (None, ?s1\<lparr>eventCh := eventCh ?s1 @ map (jsonEvent sess key) (map snd items)\<rparr>,
            if items = [] then InputOffset ?dec' else offset ?dec' + length (joinValues items))"
    using Cons.prems(1,4,5) dr' fr(4) by (intro Cons.IH) simp_all
  with step item show ?case by (simp add: InputOffset_def)
qed

text \<open>One event that brings a whole batch to a session with an empty buffer.\<close>

lemma ProcessFSEvent_batch:
  assumes "bufferOf s (keyOf e) = []"
    and "Buffer e = w1 @ v1 @ joinValues items @ w2"
    and "allSpace w1" and "allSpace w2"
    and "framed (([], v1) # items) []"
    and "hd v1 = CHR ''{'' \<or> hd v1 = CHR ''[''"
    and "length (eventCh s) + Suc (length items) \<le> eventChCap"
  shows "ProcessFSEvent s e =
           (None, s\<lparr>eventCh := eventCh s
                        @ map (jsonEvent (sessionFor s e) (keyOf e)) (v1 # map snd items),
                     sessions := (sessions s)(keyOf e \<mapsto> (sessionFor s e)\<lparr>buf := []\<rparr>)\<rparr>)"
proof -
  let ?body = "v1 @ joinValues items"
  let ?sess = "(sessionFor s e)\<lparr>buf := bufferOf s (keyOf e) @ Buffer e\<rparr>"
  from assms(5) have v1: "isValue v1" by simp
  then have ne: "?body \<noteq> []" and hd: "hd ?body = hd v1" by (simp_all add: isValue_def)
  have lastv: "plain (last (joinValues its))" if "framed its []" "its \<noteq> []" for its
    using that
  proof (induction its)
    case Nil
    then show ?case by simp
  next
    case (Cons it its)
    obtain w v where it: "it = (w, v)" by (cases it)
    with Cons.prems have v: "isValue v" and f: "framed its []" by simp_all
    show ?case
    proof (cases "its = []")
      case True
      with it v isValue_last_plain [OF v] show ?thesis by (simp add: isValue_def)
    next
      case False
      obtain w' v' its' where "its = (w', v') # its'" using False by (cases its) auto
      with f have "joinValues its \<noteq> []" by (auto simp: isValue_def)
      with Cons.IH [OF f False] it show ?thesis by simp
    qed
  qed
  from lastv [OF assms(5)] have pl: "plain (last ?body)" by simp
  from isValue_hd_plain [OF v1] hd have ph: "plain (hd ?body)" by simp
  have T: "TrimSpace (buf ?sess) = ?body"
    using TrimSpace_body [OF assms(3,4) ne ph pl] assms(1,2) by simp
  have je: "jsonEvent ?sess (keyOf e) = jsonEvent (sessionFor s e) (keyOf e)"
    by (rule ext) simp
  from v1 have vne: "v1 \<noteq> []" by (simp add: isValue_def)
  have "emitLoop s ?sess (keyOf e) (NewDecoder ?body) 0 =
      (None, s\<lparr>eventCh := eventCh s @ map (jsonEvent ?sess (keyOf e)) (map snd (([], v1) # items))\<rparr>,
       if ([], v1) # items = [] then 0
       else offset (NewDecoder ?body) + length (joinValues (([], v1) # items)))"
    using assms(5,7)
    by (intro emitLoop_items [where t = "[]"])
       (simp_all add: NewDecoder_def scanValue_reset_Nil del: scanValue.simps)
  then have loop: "emitLoop s ?sess (keyOf e) (NewDecoder ?body) 0 =
      (None, s\<lparr>eventCh := eventCh s
                   @ map (jsonEvent (sessionFor s e) (keyOf e)) (v1 # map snd items)\<rparr>,
       length ?body)"
    by (simp add: je NewDecoder_def)
  have "tryEmitJsonEvent s ?sess (keyOf e) =
      (None, s\<lparr>eventCh := eventCh s
                   @ map (jsonEvent (sessionFor s e) (keyOf e)) (v1 # map snd items)\<rparr>,
       ?sess\<lparr>buf := []\<rparr>)"
    using T vne hd assms(6) loop
    by (simp add: tryEmitJsonEvent_def Let_def)
  then show ?thesis by (simp add: ProcessFSEvent_alt)
qed

lemma framed_separated:
  assumes "\<forall>(w, v) \<in> set items. w \<noteq> [] \<and> allSpace w \<and> isValue v"
  shows "(joinValues items = [] \<or> isSpace (hd (joinValues items))) \<and> framed items []"
  using assms
proof (induction items)
  case Nil
  then show ?case by simp
next
  case (Cons item items)
  obtain w v where item: "item = (w, v)" by (cases item)
  with Cons.prems have w: "w \<noteq> []" "allSpace w" and v: "isValue v"
    and rest: "\<forall>(w, v) \<in> set items. w \<noteq> [] \<and> allSpace w \<and> isValue v"
    by simp_all
  from w have "isSpace (hd (w @ v @ joinValues items))"
    by (cases w) (simp_all add: allSpace_def)
  with Cons.IH [OF rest] item w v show ?case by auto
qed

lemma emitted_append [simp]: "emitted s (s\<lparr>eventCh := eventCh s @ evs, sessions := m\<rparr>) = evs"
  by (simp add: emitted_def)

lemma Payload_jsonEvent [simp]: "Payload (jsonEvent sess key p) = p"
  by (simp add: jsonEvent_def)

text \<open>
  C4: one event, for a session with an empty buffer, whose captured bytes are N complete
  top-level JSON values separated by (and possibly surrounded by) JSON white space, the
  first an object or an array, with room for N events in the channel: \<open>ProcessFSEvent\<close>
  returns no error and emits exactly N events, in the order of arrival, the payload of
  each being the bytes of its value, unchanged; the buffer is empty afterwards.
\<close>

theorem batch_emission:
  assumes "bufferOf s (keyOf e) = []"
    and "Buffer e = w1 @ v1 @ joinValues items @ w2"
    and "allSpace w1" and "allSpace w2"
    and "isValue v1" and "hd v1 = CHR ''{'' \<or> hd v1 = CHR ''[''"
    and "\<forall>(w, v) \<in> set items. w \<noteq> [] \<and> allSpace w \<and> isValue v"
    and "length (eventCh s) + Suc (length items) \<le> eventChCap"
  shows "fst (ProcessFSEvent s e) = None
         \<and> map Payload (emitted s (snd (ProcessFSEvent s e))) = v1 # map snd items
         \<and> bufferOf (snd (ProcessFSEvent s e)) (keyOf e) = []"
proof -
  from framed_separated [OF assms(7)] assms(5)
  have "framed (([], v1) # items) []" by (auto simp: allSpace_def)
  from ProcessFSEvent_batch [OF assms(1,2,3,4) this assms(6,8)]
  show ?thesis by (simp add: bufferOf_def comp_def)
qed

text \<open>
  C4 (witness): three values, one per line.
\<close>

theorem batch_emission_witness:
  \<open>fst (ProcessFSEvent NewSessionManager
          (readEvent (''{"id":1}'' @ [CHR 0x0A] @ ''[2, 3]'' @ [CHR 0x0A] @ ''{"id":4}'' @ [CHR 0x0A])))
     = None
   \<and> map Payload (emitted NewSessionManager (snd (ProcessFSEvent NewSessionManager
          (readEvent (''{"id":1}'' @ [CHR 0x0A] @ ''[2, 3]'' @ [CHR 0x0A] @ ''{"id":4}'' @ [CHR 0x0A])))))
     = [''{"id":1}'', ''[2, 3]'', ''{"id":4}'']\<close>
proof -
  let ?e = \<open>readEvent (''{"id":1}'' @ [CHR 0x0A] @ ''[2, 3]'' @ [CHR 0x0A] @ ''{"id":4}'' @ [CHR 0x0A])\<close>
  let ?items = \<open>[([CHR 0x0A], ''[2, 3]''), ([CHR 0x0A], ''{"id":4}'')]\<close>
  have h1: "bufferOf NewSessionManager (keyOf ?e) = []" by code_simp
  have h2: \<open>Buffer ?e = [] @ ''{"id":1}'' @ joinValues ?items @ [CHR 0x0A]\<close> by code_simp
  have h3: "allSpace []" by code_simp
  have h4: "allSpace [CHR 0x0A]" by code_simp
  have h5: \<open>isValue ''{"id":1}''\<close> by code_simp
  have h6: \<open>hd ''{"id":1}'' = CHR ''{'' \<or> hd ''{"id":1}'' = CHR ''[''\<close> by simp
  have h7a: \<open>isValue ''[2, 3]''\<close> by code_simp
  have h7b: \<open>isValue ''{"id":4}''\<close> by code_simp
  have h7: "\<forall>(w, v) \<in> set ?items. w \<noteq> [] \<and> allSpace w \<and> isValue v"
    using h4 h7a h7b by simp
  have h8: "length (eventCh NewSessionManager) + Suc (length ?items) \<le> eventChCap"
    by code_simp
  from batch_emission [OF h1 h2 h3 h4 h5 h6 h7 h8] show ?thesis by simp
qed

text \<open>
  C10: no emitted payload is empty, whatever the manager and the event. And the check of
  the first byte concerns the first value only: in a batch as in C4, every later value is
  emitted, an object or not.
\<close>

theorem lead_byte_check_first_value_only:
  "(\<forall>ev \<in> set (emitted s (snd (ProcessFSEvent s e))). Payload ev \<noteq> [])
   \<and> (bufferOf s (keyOf e) = [] \<and> Buffer e = w1 @ v1 @ joinValues items @ w2
        \<and> allSpace w1 \<and> allSpace w2
        \<and> isValue v1 \<and> (hd v1 = CHR ''{'' \<or> hd v1 = CHR ''['')
        \<and> (\<forall>(w, v) \<in> set items. w \<noteq> [] \<and> allSpace w \<and> isValue v)
        \<and> length (eventCh s) + Suc (length items) \<le> eventChCap
      \<longrightarrow> (\<forall>(w, v) \<in> set items.
              \<exists>ev \<in> set (emitted s (snd (ProcessFSEvent s e))). Payload ev = v))"
proof (intro conjI impI)
  let ?sess = "(sessionFor s e)\<lparr>buf := bufferOf s (keyOf e) @ Buffer e\<rparr>"
  obtain r s' sess' where t: "tryEmitJsonEvent s ?sess (keyOf e) = (r, s', sess')"
    by (cases "tryEmitJsonEvent s ?sess (keyOf e)")
  from tryEmitJsonEvent_events [OF t] obtain ps where
    ps: "eventCh s' = eventCh s @ map (jsonEvent ?sess (keyOf e)) ps" "[] \<notin> set ps" by blast
  have "emitted s (snd (ProcessFSEvent s e)) = map (jsonEvent ?sess (keyOf e)) ps"
    using t ps by (simp add: ProcessFSEvent_alt emitted_def)
  with ps(2) show "\<forall>ev \<in> set (emitted s (snd (ProcessFSEvent s e))). Payload ev \<noteq> []"
    by auto
next
  assume a: "bufferOf s (keyOf e) = [] \<and> Buffer e = w1 @ v1 @ joinValues items @ w2
        \<and> allSpace w1 \<and> allSpace w2
        \<and> isValue v1 \<and> (hd v1 = CHR ''{'' \<or> hd v1 = CHR ''['')
        \<and> (\<forall>(w, v) \<in> set items. w \<noteq> [] \<and> allSpace w \<and> isValue v)
        \<and> length (eventCh s) + Suc (length items) \<le> eventChCap"
  then have sep: "\<forall>(w, v) \<in> set items. w \<noteq> [] \<and> allSpace w \<and> isValue v" by blast
  from framed_separated [OF sep] a
  have "framed (([], v1) # items) []" by (auto simp: allSpace_def)
  with a ProcessFSEvent_batch [of s e w1 v1 items w2]
  have "map Payload (emitted s (snd (ProcessFSEvent s e))) = v1 # map snd items"
    by (simp add: comp_def)
  then have "set (map snd items) \<subseteq> Payload ` set (emitted s (snd (ProcessFSEvent s e)))"
    by (metis set_map set_subset_Cons)
  then show "\<forall>(w, v) \<in> set items.
              \<exists>ev \<in> set (emitted s (snd (ProcessFSEvent s e))). Payload ev = v"
    by force
qed

text \<open>
  C10 (witness): after an object come \<open>true\<close>, a string, a number and \<open>null\<close>; the
  payload \<open>true\<close> is emitted and begins with neither \<open>{\<close> nor \<open>[\<close>.
\<close>

theorem lead_byte_check_first_value_only_witness:
  \<open>\<exists>ev \<in> set (emitted NewSessionManager
      (snd (ProcessFSEvent NewSessionManager (readEvent ''{"a":1} true "s" -2.5e3 null'')))).
        Payload ev = ''true'' \<and> hd (Payload ev) \<noteq> CHR ''{'' \<and> hd (Payload ev) \<noteq> CHR ''[''\<close>
proof -
  let ?e = \<open>readEvent ''{"a":1} true "s" -2.5e3 null''\<close>
  let ?items = \<open>[('' '', ''true''), ('' '', ''"s"''), ('' '', ''-2.5e3''), ('' '', ''null'')]\<close>
  have h1: "bufferOf NewSessionManager (keyOf ?e) = []" by code_simp
  have h2: \<open>Buffer ?e = [] @ ''{"a":1}'' @ joinValues ?items @ []\<close> by code_simp
  have h3: "allSpace []" by code_simp
  have h4: "allSpace '' ''" by code_simp
  have h5: \<open>isValue ''{"a":1}''\<close> by code_simp
  have h6: \<open>hd ''{"a":1}'' = CHR ''{'' \<or> hd ''{"a":1}'' = CHR ''[''\<close> by simp
  have v1: \<open>isValue ''true''\<close> by code_simp
  have v2: \<open>isValue ''"s"''\<close> by code_simp
  have v3: \<open>isValue ''-2.5e3''\<close> by code_simp
  have v4: \<open>isValue ''null''\<close> by code_simp
  have h7: "\<forall>(w, v) \<in> set ?items. w \<noteq> [] \<and> allSpace w \<and> isValue v"
    using h4 v1 v2 v3 v4 by simp
  have h8: "length (eventCh NewSessionManager) + Suc (length ?items) \<le> eventChCap"
    by code_simp
  have c: "\<forall>(w, v) \<in> set ?items.
              \<exists>ev \<in> set (emitted NewSessionManager (snd (ProcessFSEvent NewSessionManager ?e))).
                Payload ev = v"
    by (rule mp [OF conjunct2 [OF lead_byte_check_first_value_only
            [of NewSessionManager ?e "[]" \<open>''{"a":1}''\<close> ?items "[]"]]])
       (intro conjI h1 h2 h3 h5 h6 h7 h8)
  have m: "('' '', ''true'') \<in> set ?items" by simp
  from bspec [OF c m] have "\<exists>ev \<in> set (emitted NewSessionManager
        (snd (ProcessFSEvent NewSessionManager ?e))). Payload ev = ''true''"
    by (simp only: prod.case)
  then obtain ev where
    ev: "ev \<in> set (emitted NewSessionManager (snd (ProcessFSEvent NewSessionManager ?e)))"
    and p: "Payload ev = ''true''" by blast
  from p have "hd (Payload ev) \<noteq> CHR ''{'' \<and> hd (Payload ev) \<noteq> CHR ''[''" by simp
  with ev p show ?thesis by blast
qed

section \<open>Delivery in chunks\<close>





















text \<open>
  Streams, and the values a prefix of a stream holds.
\<close>

lemma dropWhile_spaces: "allSpace w \<Longrightarrow> dropWhile isSpace (w @ y) = dropWhile isSpace y"
  by (simp add: allSpace_def dropWhile_append2)

lemma dropWhile_value: "isValue v \<Longrightarrow> dropWhile isSpace (v @ y) = v @ y"
  by (cases v) (simp_all add: isValue_def)



lemma stream_value:
  "allSpace w \<Longrightarrow> isValue v \<Longrightarrow> stream (v # vs) (w @ v @ y) = stream vs y"
  by (simp add: dropWhile_spaces dropWhile_value)



lemma stream_pending_Nil: "stream vs x \<Longrightarrow> pending vs x = []"
  by (induction vs arbitrary: x) (auto simp: allSpace_def Let_def)


lemma pending_only_spaces:
  assumes "allSpace w" and "\<forall>v \<in> set vs. v \<noteq> []"
  shows "pending vs w = []"
proof -
  from assms(1) have d: "dropWhile isSpace w = []" by (simp add: allSpace_def)
  show ?thesis
  proof (cases vs)
    case Nil
    with d show ?thesis by simp
  next
    case (Cons v vs')
    with assms(2) have "v \<noteq> []" by simp
    then have "take (length v) [] \<noteq> v" by auto
    then show ?thesis unfolding Cons pending.simps d Let_def by simp
  qed
qed





lemma completed_le: "completed vs x \<le> length vs"
  by (induction vs arbitrary: x) (simp_all add: Let_def)









text \<open>
  A chunk that completes a value and ends on white space inside the next value: the
  buffer is cut out of the trimmed bytes, so that the white space is lost and the second
  payload is not the value that was sent. The amended claim C1 leaves these chunk
  boundaries out, and only these.
\<close>

lemma chunk_ending_on_space_inside_value:
  \<open>map Payload (eventCh (snd (ProcessFSEvent NewSessionManager
         (readEvent ''{"x":1} {"a": "b c"}''))))
       = [''{"x":1}'', ''{"a": "b c"}'']
   \<and> map Payload (eventCh (snd (deliver NewSessionManager
         [readEvent ''{"x":1} {"a": "b '', readEvent ''c"}''])))
       = [''{"x":1}'', ''{"a": "bc"}'']\<close>
  by code_simp


end
